theory Spec2Isabelle
  imports Main "HOL-Library.Word" "HOL-Library.Sublist"
begin

unbundle bit_operations_syntax

section \<open>Conventions of the embedding\<close>

text \<open>
  The development embeds the signal core and the virtual file system of Foreign Linux
  (\<^verbatim>\<open>src/syscall/sig.c\<close> and the VFS part that follows it in the same file).

  \<^item> A C string is the list of its bytes before the terminating NUL. The normaliser
    itself is modelled on an output array that is long enough (the source leaves the
    capacity check open: ``TODO: Avoid overflow''); where it writes into the arrays of
    \<^verbatim>\<open>MAX_PATH\<close> bytes of \<^verbatim>\<open>vfs_open\<close>, the capacity is checked by the model.
  \<^item> A syscall or helper that returns a negated errno returns \<open>Fail e\<close>; a load or a
    store outside an object (undefined behaviour in C) is the outcome \<open>Undefined\<close>
    or the option \<open>None\<close>.
  \<^item> Constants that live in headers outside the translated file (signal numbers,
    open flags, table sizes) are parameters of the functions that use them.
\<close>

datatype errno = EPERM | ENOENT | ESRCH | EBADF | EFAULT | EINVAL | EMFILE | ELOOP | EOTHER int

datatype 'a outcome = Return 'a | Fail errno | Undefined

section \<open>Path normaliser\<close>

text \<open>
  The inner loop of the \<^verbatim>\<open>..\<close> case, \<^verbatim>\<open>while (p > out && p[-1] != '/') p--;\<close>.
  The argument is the content of \<^verbatim>\<open>out\<close> below the cursor \<^verbatim>\<open>p\<close>.
\<close>

function back_to_slash :: "string \<Rightarrow> string" where
  "back_to_slash out =
     (if out \<noteq> [] \<and> last out \<noteq> CHR ''/'' then back_to_slash (butlast out) else out)"
  by pat_completeness auto
termination
  by (relation "measure length") auto

declare back_to_slash.simps [simp del]

text \<open>
  \<^verbatim>\<open>p--; while (p > out && p[-1] != '/') p--;\<close>
  When the cursor already stands at \<^verbatim>\<open>out\<close>, the decrement moves it before the buffer;
  nothing moves it forward again without a store through it, and the final
  \<^verbatim>\<open>*p = 0\<close> stores through it in any case, so that run is undefined: \<open>None\<close>.
\<close>

definition pop_component :: "string \<Rightarrow> string option" where
  "pop_component out = (if out = [] then None else Some (back_to_slash (butlast out)))"

text \<open>
  The main loop \<^verbatim>\<open>while (pathname[0])\<close>, its five branches in the order of the source.
  The first argument is the rest of \<^verbatim>\<open>pathname\<close>, the second the content of
  \<^verbatim>\<open>out\<close> below \<^verbatim>\<open>p\<close>. \<open>take 1 cs = ''/''\<close> reads \<^verbatim>\<open>pathname[1] == '/'\<close>, and
  \<open>cs = []\<close> reads \<^verbatim>\<open>pathname[1] == 0\<close>.
\<close>

function normalize_loop :: "string \<Rightarrow> string \<Rightarrow> string option" where
  "normalize_loop [] out = Some out"
| "normalize_loop (c # cs) out =
     (if c = CHR ''/'' then normalize_loop cs out
      else if c = CHR ''.'' \<and> take 1 cs = ''/'' then normalize_loop (drop 1 cs) out
      else if c = CHR ''.'' \<and> cs = [] then normalize_loop cs (out @ [c])
      else if c = CHR ''.'' \<and> take 1 cs = ''.'' \<and>
              (take 1 (drop 1 cs) = ''/'' \<or> drop 1 cs = []) then
        (case pop_component out of
           None \<Rightarrow> None
         | Some out' \<Rightarrow> normalize_loop (drop (if drop 1 cs = [] then 1 else 2) cs) out')
      else
        (let name = takeWhile (\<lambda>x. x \<noteq> CHR ''/'') (c # cs);
             rest = dropWhile (\<lambda>x. x \<noteq> CHR ''/'') cs
         in if take 1 rest = ''/'' then normalize_loop (drop 1 rest) (out @ name @ ''/'')
            else normalize_loop rest (out @ name)))"
  by pat_completeness auto
termination
proof (relation "measure (\<lambda>(pathname, out). length pathname)")
  fix c :: char and cs name rest :: string
  assume "rest = dropWhile (\<lambda>x. x \<noteq> CHR ''/'') cs"
  then have shorter: "length rest \<le> length cs"
    by (simp add: length_dropWhile_le)
  then show "((drop 1 rest, (out::string) @ name @ ''/''), c # cs, out)
      \<in> measure (\<lambda>(pathname, out). length pathname)" for out
    by simp
  show "((rest, (out::string) @ name), c # cs, out)
      \<in> measure (\<lambda>(pathname, out). length pathname)" for out
    using shorter by simp
qed auto

text \<open>
  \<^verbatim>\<open>normalize_path(current, pathname, out)\<close>. The C function always returns 1; the model
  returns the string left in \<^verbatim>\<open>out\<close>. With a relative \<^verbatim>\<open>pathname\<close> and an empty
  \<^verbatim>\<open>current\<close> the test \<^verbatim>\<open>p[-1] != '/'\<close> reads before the buffer. Aliasing
  \<^verbatim>\<open>current\<close> and \<^verbatim>\<open>out\<close> only skips the copy, so the model has no case for it.
  The last step is \<^verbatim>\<open>if (p - 1 > out && p[-1] == '/') p[-1] = 0; else *p = 0;\<close>.
\<close>

definition normalize_path :: "string \<Rightarrow> string \<Rightarrow> string option" where
  "normalize_path current pathname =
     (case (if take 1 pathname = ''/'' then Some (''/'', drop 1 pathname)
            else if current = [] then None
            else Some (if last current \<noteq> CHR ''/'' then current @ ''/'' else current,
                       pathname)) of
        None \<Rightarrow> None
      | Some (out, rest) \<Rightarrow>
          (case normalize_loop rest out of
             None \<Rightarrow> None
           | Some p \<Rightarrow> Some (if 1 < length p \<and> last p = CHR ''/'' then butlast p else p)))"

text \<open>
  The shape of a normalised guest path: the root slash, then names that are not empty,
  hold no slash and are neither \<^verbatim>\<open>.\<close> nor \<^verbatim>\<open>..\<close>, each but the last followed by
  one slash; the last name may be \<^verbatim>\<open>.\<close>. \<open>slashed cs\<close> writes each name of \<open>cs\<close>
  with a slash behind it. \<open>loop_result\<close> is the shape of \<^verbatim>\<open>out\<close> when the main loop
  is left, before the slash at the tail is removed.
\<close>

definition ordinary_name :: "string \<Rightarrow> bool" where
  "ordinary_name c = (c \<noteq> [] \<and> CHR ''/'' \<notin> set c \<and> c \<noteq> ''.'' \<and> c \<noteq> ''..'')"

definition slashed :: "string list \<Rightarrow> string" where
  "slashed cs = concat (map (\<lambda>c. c @ ''/'') cs)"

definition normalised :: "string \<Rightarrow> bool" where
  "normalised q =
     (\<exists>cs t. q = ''/'' @ slashed cs @ t \<and> list_all ordinary_name cs
        \<and> (t = [] \<and> cs = [] \<or> t = ''.'' \<or> ordinary_name t))"

definition loop_result :: "string \<Rightarrow> bool" where
  "loop_result r =
     (\<exists>cs t. r = ''/'' @ slashed cs @ t \<and> list_all ordinary_name cs
        \<and> (t = [] \<or> t = ''.'' \<or> ordinary_name t))"

section \<open>Filesystem registry\<close>

type_synonym file_ptr = nat

text \<open>
  What \<^verbatim>\<open>fs->open\<close> reports: 0 with the file in \<^verbatim>\<open>*f\<close>, 1 with the link's target in
  \<^verbatim>\<open>target\<close>, or any other code. \<^verbatim>\<open>fs->readlink\<close> gives the bytes of the link or a
  negative code. Both entries of the vtable may be NULL.
\<close>

datatype open_ret = Opened file_ptr | IsSymlink string | OpenFailed errno

record file_system =
  mountpoint :: string
  fs_open :: "(string \<Rightarrow> int \<Rightarrow> int \<Rightarrow> open_ret) option"
  fs_readlink :: "(string \<Rightarrow> errno + string) option"

text \<open>
  The loop \<^verbatim>\<open>while (*p && *p == *subpath) { p++; subpath++; }\<close> of
  \<^verbatim>\<open>find_filesystem\<close> followed by the test \<^verbatim>\<open>*p == 0\<close>: the rest of the path when
  the whole mountpoint was consumed.
\<close>

fun match_mountpoint :: "string \<Rightarrow> string \<Rightarrow> string option" where
  "match_mountpoint [] subpath = Some subpath"
| "match_mountpoint (m # ms) [] = None"
| "match_mountpoint (m # ms) (c # cs) = (if m = c then match_mountpoint ms cs else None)"

text \<open>
  \<^verbatim>\<open>find_filesystem\<close> over the linked list \<^verbatim>\<open>vfs->fs_first\<close>, \<^verbatim>\<open>fs->next\<close>;
  \<open>None\<close> is the return value 0.
\<close>

fun find_filesystem :: "file_system list \<Rightarrow> string \<Rightarrow> (file_system \<times> string) option" where
  "find_filesystem [] path = None"
| "find_filesystem (fs # next) path =
     (case match_mountpoint (mountpoint fs) path of
        Some subpath \<Rightarrow> Some (fs, if take 1 subpath = ''/'' then drop 1 subpath else subpath)
      | None \<Rightarrow> find_filesystem next path)"

text \<open>\<^verbatim>\<open>vfs_add\<close> pushes a filesystem on the front of the list.\<close>

definition vfs_add :: "file_system \<Rightarrow> file_system list \<Rightarrow> file_system list" where
  "vfs_add fs first = fs # first"

text \<open>
  The registry lookup in the words of the specification: the first entry whose
  mountpoint is a prefix of the path, and the path with the mountpoint stripped and one
  leading slash removed.
\<close>

definition registry_lookup :: "file_system list \<Rightarrow> string \<Rightarrow> (file_system \<times> string) option" where
  "registry_lookup entries path =
     (case find (\<lambda>fs. prefix (mountpoint fs) path) entries of
        None \<Rightarrow> None
      | Some fs \<Rightarrow>
          (let stripped = drop (length (mountpoint fs)) path
           in Some (fs, if take 1 stripped = ''/'' then drop 1 stripped else stripped)))"

section \<open>Symlink-aware open\<close>

text \<open>
  The local arrays \<^verbatim>\<open>char path[MAX_PATH], target[MAX_PATH]\<close> of \<^verbatim>\<open>vfs_open\<close> are
  not initialised, and \<^verbatim>\<open>resolve_symlink\<close> reads the byte behind what
  \<^verbatim>\<open>fs->readlink\<close> wrote into \<^verbatim>\<open>target\<close>. That array is therefore modelled with
  its content, byte by byte.
\<close>

type_synonym buffer = "nat \<Rightarrow> char"

definition store_bytes :: "string \<Rightarrow> buffer \<Rightarrow> buffer" where
  "store_bytes s buf = (\<lambda>i. if i < length s then s ! i else buf i)"

definition store_cstr :: "string \<Rightarrow> buffer \<Rightarrow> buffer" where
  "store_cstr s buf = store_bytes (s @ [CHR 0x00]) buf"

text \<open>
  Nothing in the translated functions compares a length with \<^verbatim>\<open>MAX_PATH\<close> before it
  stores into one of the two arrays, and a store behind the end of an array is
  undefined. \<^verbatim>\<open>MAX_PATH\<close> comes from a header outside the translated file and is a
  parameter. Two rules decide whether a store fits:
  \<^item> a string written from the start of an array needs room for its bytes and the
    terminator, so its length must be less than \<^verbatim>\<open>MAX_PATH\<close>;
  \<^item> \<^verbatim>\<open>normalize_path\<close> starts its cursor behind the root slash (absolute
    \<^verbatim>\<open>pathname\<close>) or behind \<^verbatim>\<open>current\<close> and the slash it adds if \<^verbatim>\<open>current\<close>
    does not end in one, moves it forward by at most one byte for each byte of
    \<^verbatim>\<open>pathname\<close>, and moves it back at \<^verbatim>\<open>..\<close>. The model takes a call on an array
    of \<open>room\<close> bytes as defined when that longest extent and the terminator fit. The
    bound is on the safe side: a call that does not meet it is \<open>None\<close>, although a
    pathname with \<^verbatim>\<open>..\<close>, \<^verbatim>\<open>./\<close> or doubled slashes in it may stay within the
    array in C.
\<close>

definition normalize_path_in :: "nat \<Rightarrow> string \<Rightarrow> string \<Rightarrow> string option" where
  "normalize_path_in room current pathname =
     (if (if take 1 pathname = ''/'' then length pathname
          else length current + (if current \<noteq> [] \<and> last current = CHR ''/'' then 0 else 1)
               + length pathname) < room
      then normalize_path current pathname else None)"

text \<open>
  Scanning a path backwards for a slash and cutting behind it:
  \<^verbatim>\<open>while (*p != '/') p--; p[1] = 0;\<close> in \<^verbatim>\<open>vfs_open\<close> and
  \<^verbatim>\<open>while (p[-1] != '/') p--; p[0] = 0;\<close> in \<^verbatim>\<open>resolve_symlink\<close>. Neither loop
  tests for the start of the buffer: without a slash the scan leaves the array.
\<close>

definition upto_last_slash :: "string \<Rightarrow> string option" where
  "upto_last_slash s = (if CHR ''/'' \<in> set s then Some (back_to_slash s) else None)"

text \<open>
  The loop of \<^verbatim>\<open>resolve_symlink\<close>,
  \<^verbatim>\<open>for (char *p = subpath + strlen(subpath) - 1; p > subpath; p--)\<close>; the last
  argument is \<^verbatim>\<open>p - subpath\<close>, and \<open>pre\<close> is the part of \<^verbatim>\<open>path\<close> in front of
  \<^verbatim>\<open>subpath\<close>. Leaving the loop with \<^verbatim>\<open>found == 0\<close> gives \<^verbatim>\<open>-ENOENT\<close>.

  \<^verbatim>\<open>fs->readlink(subpath, target, MAX_PATH)\<close> stores the \<open>r\<close> bytes of the link at
  the start of \<^verbatim>\<open>target\<close> and no terminator (the same entry serves the guest's
  \<^verbatim>\<open>readlink\<close>). Then \<^verbatim>\<open>char *t = target + r; if (*t != '/') *t++ = '/';\<close> tests the
  byte behind the link, which is whatever the array held there before; the rest of the
  path is copied to \<^verbatim>\<open>t\<close> and terminated. So \<^verbatim>\<open>target\<close> becomes the link, a slash
  unless the byte behind the link already was one, and the rest of the path; \<^verbatim>\<open>path\<close>
  is cut behind the slash in front of the link's name and normalised with that target.
\<close>

fun resolve_scan ::
  "nat \<Rightarrow> (string \<Rightarrow> errno + string) \<Rightarrow> string \<Rightarrow> string \<Rightarrow> buffer \<Rightarrow> nat
     \<Rightarrow> (string \<times> buffer) outcome"
where
  "resolve_scan MAX_PATH readlink pre subpath target 0 = Fail ENOENT"
| "resolve_scan MAX_PATH readlink pre subpath target (Suc k) =
     (if subpath ! Suc k = CHR ''/'' then
        (case readlink (take (Suc k) subpath) of
           Inr link \<Rightarrow>
             (let filled = store_bytes link target;
                  joined = (if filled (length link) \<noteq> CHR ''/'' then link @ ''/'' else link)
                           @ drop (Suc (Suc k)) subpath
              in if \<not> length joined < MAX_PATH then Undefined
                 else case upto_last_slash (pre @ take (Suc k) subpath) of
                   None \<Rightarrow> Undefined
                 | Some dir \<Rightarrow>
                     (case normalize_path_in MAX_PATH dir joined of
                        None \<Rightarrow> Undefined
                      | Some path' \<Rightarrow> Return (path', store_cstr joined filled)))
         | Inl e \<Rightarrow>
             if e = ENOENT then resolve_scan MAX_PATH readlink pre subpath target k else Fail e)
      else resolve_scan MAX_PATH readlink pre subpath target k)"

definition resolve_symlink ::
  "nat \<Rightarrow> file_system \<Rightarrow> string \<Rightarrow> string \<Rightarrow> buffer \<Rightarrow> (string \<times> buffer) outcome"
where
  "resolve_symlink MAX_PATH fs path subpath target =
     (case fs_readlink fs of
        None \<Rightarrow> Fail ENOENT
      | Some readlink \<Rightarrow>
          resolve_scan MAX_PATH readlink (take (length path - length subpath) path) subpath
            target (length subpath - 1))"

text \<open>
  One pass through the body of the loop of \<^verbatim>\<open>vfs_open\<close>, behind the test of
  \<^verbatim>\<open>symlink_level\<close>: either the function returns, or \<^verbatim>\<open>path\<close> and \<^verbatim>\<open>target\<close> are
  rewritten and the loop goes on. The second component lists the names handed to
  \<^verbatim>\<open>fs->open\<close> in this pass (none or one). \<^verbatim>\<open>fs->open\<close> is given the length of
  \<^verbatim>\<open>target\<close>; a link it reports has been stored there with its terminator.
\<close>

datatype pass = Done "file_ptr outcome" | Again string buffer

definition vfs_open_pass ::
  "nat \<Rightarrow> file_system list \<Rightarrow> int \<Rightarrow> int \<Rightarrow> string \<Rightarrow> buffer \<Rightarrow> pass \<times> string list"
where
  "vfs_open_pass MAX_PATH first flags mode path target =
     (case find_filesystem first path of
        None \<Rightarrow> (Done (Fail ENOENT), [])
      | Some (fs, subpath) \<Rightarrow>
          (case fs_open fs of
             None \<Rightarrow> (Done (Fail ENOENT), [])
           | Some opn \<Rightarrow>
               (let name = (if subpath \<noteq> [] then subpath else ''.'') in
                ((case opn name flags mode of
                   Opened f \<Rightarrow> Done (Return f)
                 | IsSymlink link \<Rightarrow>
                     if \<not> length link < MAX_PATH then Done Undefined
                     else
                       (case upto_last_slash path of
                          None \<Rightarrow> Done Undefined
                        | Some dir \<Rightarrow>
                            (case normalize_path_in MAX_PATH dir link of
                               None \<Rightarrow> Done Undefined
                             | Some path' \<Rightarrow> Again path' (store_cstr link target)))
                 | OpenFailed e \<Rightarrow>
                     if e = ENOENT then
                       (case resolve_symlink MAX_PATH fs path subpath target of
                          Return (path', target') \<Rightarrow> Again path' target'
                        | Fail r \<Rightarrow> Done (Fail ENOENT)
                        | Undefined \<Rightarrow> Done Undefined)
                     else Done (Fail e)),
                 [name]))))"

text \<open>
  The loop \<^verbatim>\<open>for (int symlink_level = 0;; symlink_level++)\<close>. The counter of the model
  runs down: its value is \<^verbatim>\<open>MAX_SYMLINK_LEVEL - symlink_level\<close>, so that the test
  \<^verbatim>\<open>symlink_level == MAX_SYMLINK_LEVEL\<close> is the case 0. The result carries the names
  handed to \<^verbatim>\<open>fs->open\<close>, in the order of the calls.
\<close>

fun vfs_open_loop ::
  "nat \<Rightarrow> file_system list \<Rightarrow> int \<Rightarrow> int \<Rightarrow> nat \<Rightarrow> string \<Rightarrow> buffer
     \<Rightarrow> file_ptr outcome \<times> string list"
where
  "vfs_open_loop MAX_PATH first flags mode 0 path target = (Fail ELOOP, [])"
| "vfs_open_loop MAX_PATH first flags mode (Suc left) path target =
     (case vfs_open_pass MAX_PATH first flags mode path target of
        (Done r, calls) \<Rightarrow> (r, calls)
      | (Again path' target', calls) \<Rightarrow>
          (case vfs_open_loop MAX_PATH first flags mode left path' target' of
             (r, later) \<Rightarrow> (r, calls @ later)))"

text \<open>
  \<^verbatim>\<open>vfs_open(pathname, flags, mode, f)\<close>. The two tests of unsupported flags and of
  \<^verbatim>\<open>mode\<close> only log. \<open>junk\<close> is what the stack holds where \<^verbatim>\<open>target\<close> is placed.
\<close>

definition vfs_open ::
  "nat \<Rightarrow> nat \<Rightarrow> file_system list \<Rightarrow> string \<Rightarrow> string \<Rightarrow> int \<Rightarrow> int \<Rightarrow> buffer
     \<Rightarrow> file_ptr outcome \<times> string list"
where
  "vfs_open MAX_SYMLINK_LEVEL MAX_PATH first cwd pathname flags mode junk =
     (case normalize_path_in MAX_PATH cwd pathname of
        None \<Rightarrow> (Undefined, [])
      | Some path \<Rightarrow> vfs_open_loop MAX_PATH first flags mode MAX_SYMLINK_LEVEL path junk)"

section \<open>File objects and the descriptor table\<close>

text \<open>
  \<^verbatim>\<open>struct vfs_data\<close>: the arrays \<^verbatim>\<open>fds[MAX_FD_COUNT]\<close> and
  \<^verbatim>\<open>fds_cloexec[MAX_FD_COUNT]\<close> are lists, NULL is \<open>None\<close>. The files themselves are
  objects on the heap, shared between slots: \<open>ref\<close> maps the address of a file to its
  field \<^verbatim>\<open>f->ref\<close>, and \<open>closed\<close> lists the calls of \<^verbatim>\<open>f->op_vtable->close(f)\<close> in
  the order they were made.
\<close>

record vfs_data =
  fds :: "file_ptr option list"
  fds_cloexec :: "int list"
  fs_first :: "file_system list"
  cwd :: string
  umask :: int

record vfs_state = vfs_data +
  ref :: "file_ptr \<Rightarrow> int"
  closed :: "file_ptr list"

text \<open>The macro \<^verbatim>\<open>MAX_FD_COUNT\<close> is the number of elements of \<^verbatim>\<open>fds\<close>.\<close>

definition MAX_FD_COUNT :: "vfs_state \<Rightarrow> int" where
  "MAX_FD_COUNT s = int (length (fds s))"

definition vfs_get :: "int \<Rightarrow> vfs_state \<Rightarrow> file_ptr option" where
  "vfs_get fd s = (if fd < 0 \<or> fd \<ge> MAX_FD_COUNT s then None else fds s ! nat fd)"

definition vfs_ref :: "file_ptr \<Rightarrow> vfs_state \<Rightarrow> vfs_state" where
  "vfs_ref f s = s\<lparr>ref := (ref s)(f := ref s f + 1)\<rparr>"

text \<open>\<^verbatim>\<open>if (--f->ref == 0) f->op_vtable->close(f);\<close>\<close>

definition vfs_release :: "file_ptr \<Rightarrow> vfs_state \<Rightarrow> vfs_state" where
  "vfs_release f s =
     (let s' = s\<lparr>ref := (ref s)(f := ref s f - 1)\<rparr>
      in if ref s' f = 0 then s'\<lparr>closed := closed s' @ [f]\<rparr> else s')"

text \<open>
  \<^verbatim>\<open>vfs_close(fd)\<close> tests neither the index nor the slot: outside the array, or on an
  empty slot (\<^verbatim>\<open>vfs_release(NULL)\<close>), the call is undefined. Its callers test the slot.
\<close>

definition vfs_close :: "int \<Rightarrow> vfs_state \<Rightarrow> vfs_state option" where
  "vfs_close fd s =
     (if fd < 0 \<or> fd \<ge> MAX_FD_COUNT s then None
      else case fds s ! nat fd of
        None \<Rightarrow> None
      | Some f \<Rightarrow>
          (let s' = vfs_release f s
           in Some (s'\<lparr>fds := (fds s')[nat fd := None],
                       fds_cloexec := (fds_cloexec s')[nat fd := 0]\<rparr>)))"

text \<open>
  The scan \<^verbatim>\<open>for (int i = 0; i < MAX_FD_COUNT; i++) if (vfs->fds[i] == NULL)\<close> of
  \<^verbatim>\<open>vfs_store_file\<close> and \<^verbatim>\<open>vfs_dup\<close>; the second argument is \<^verbatim>\<open>i\<close>.
\<close>

fun first_empty :: "file_ptr option list \<Rightarrow> nat \<Rightarrow> nat option" where
  "first_empty [] i = None"
| "first_empty (slot # slots) i = (if slot = None then Some i else first_empty slots (Suc i))"

definition vfs_store_file :: "file_ptr \<Rightarrow> int \<Rightarrow> vfs_state \<Rightarrow> int outcome \<times> vfs_state" where
  "vfs_store_file f cloexec s =
     (case first_empty (fds s) 0 of
        Some i \<Rightarrow>
          (Return (int i),
           s\<lparr>fds := (fds s)[i := Some f], fds_cloexec := (fds_cloexec s)[i := cloexec]\<rparr>)
      | None \<Rightarrow> (Fail EMFILE, s))"

text \<open>
  The last three statements of \<^verbatim>\<open>vfs_dup\<close>:
  \<^verbatim>\<open>vfs->fds[newfd] = f; vfs->fds_cloexec[newfd] = !!(flags & O_CLOEXEC); f->ref++;\<close>
\<close>

definition install_dup :: "int \<Rightarrow> file_ptr \<Rightarrow> nat \<Rightarrow> int \<Rightarrow> vfs_state \<Rightarrow> vfs_state" where
  "install_dup O_CLOEXEC f newfd flags s =
     s\<lparr>fds := (fds s)[newfd := Some f],
       fds_cloexec := (fds_cloexec s)[newfd := (if flags AND O_CLOEXEC \<noteq> 0 then 1 else 0)],
       ref := (ref s)(f := ref s f + 1)\<rparr>"

definition vfs_dup :: "int \<Rightarrow> int \<Rightarrow> int \<Rightarrow> int \<Rightarrow> vfs_state \<Rightarrow> int outcome \<times> vfs_state" where
  "vfs_dup O_CLOEXEC fd newfd flags s =
     (case vfs_get fd s of
        None \<Rightarrow> (Fail EBADF, s)
      | Some f \<Rightarrow>
          if newfd = - 1 then
            (case first_empty (fds s) 0 of
               None \<Rightarrow> (Fail EMFILE, s)
             | Some i \<Rightarrow> (Return (int i), install_dup O_CLOEXEC f i flags s))
          else if newfd = fd \<or> newfd < 0 \<or> newfd \<ge> MAX_FD_COUNT s then (Fail EINVAL, s)
          else
            (case (if fds s ! nat newfd \<noteq> None then vfs_close newfd s else Some s) of
               None \<Rightarrow> (Undefined, s)
             | Some s' \<Rightarrow> (Return newfd, install_dup O_CLOEXEC f (nat newfd) flags s')))"

text \<open>
  \<^verbatim>\<open>sys_pipe2(pipefd, flags)\<close>. \<open>pipefd_ok\<close> is the answer of
  \<^verbatim>\<open>mm_check_write(pipefd, 2 * sizeof(int))\<close>, and \<open>pipe_alloc\<close> the allocator of
  \<^verbatim>\<open>fs/pipe.c\<close>, which gives the two ends of a new pipe or a negative code. The third
  component of the result is what was stored in \<^verbatim>\<open>pipefd[0]\<close> and \<^verbatim>\<open>pipefd[1]\<close>.
\<close>

definition sys_pipe2 ::
  "int \<Rightarrow> int \<Rightarrow> int \<Rightarrow> (int \<Rightarrow> vfs_state \<Rightarrow> (errno + file_ptr \<times> file_ptr) \<times> vfs_state)
     \<Rightarrow> bool \<Rightarrow> int \<Rightarrow> vfs_state \<Rightarrow> int outcome \<times> vfs_state \<times> (int \<times> int) option"
where
  "sys_pipe2 O_DIRECT O_NONBLOCK O_CLOEXEC pipe_alloc pipefd_ok flags s =
     (if flags AND O_DIRECT \<noteq> 0 \<or> flags AND O_NONBLOCK \<noteq> 0 then (Fail EINVAL, s, None)
      else if \<not> pipefd_ok then (Fail EFAULT, s, None)
      else case pipe_alloc flags s of
        (Inl r, s0) \<Rightarrow> (Fail r, s0, None)
      | (Inr (fread, fwrite), s0) \<Rightarrow>
          (let cloexec = (if flags AND O_CLOEXEC > 0 then 1 else 0) in
           case vfs_store_file fread cloexec s0 of
             (Return rfd, s1) \<Rightarrow>
               (case vfs_store_file fwrite cloexec s1 of
                  (Return wfd, s2) \<Rightarrow> (Return 0, s2, Some (rfd, wfd))
                | (wfd, s2) \<Rightarrow>
                    (case vfs_close rfd s2 of
                       None \<Rightarrow> (Undefined, s2, None)
                     | Some s3 \<Rightarrow> (wfd, vfs_release fwrite s3, None)))
           | (rfd, s1) \<Rightarrow> (rfd, vfs_release fwrite (vfs_release fread s1), None)))"

text \<open>
  Sequences of operations on the table, for the reference-count invariant. \<open>run_op\<close>
  is the call itself, with nothing asked of the caller; it is \<open>None\<close> only where the
  source is undefined (\<^verbatim>\<open>vfs_close\<close> on an empty slot or outside the array).
\<close>

datatype fd_op =
  Store file_ptr int | Close int | Dup int int int | TakeRef file_ptr | Release file_ptr

fun run_op :: "int \<Rightarrow> fd_op \<Rightarrow> vfs_state \<Rightarrow> vfs_state option" where
  "run_op O_CLOEXEC (Store f cloexec) s = Some (snd (vfs_store_file f cloexec s))"
| "run_op O_CLOEXEC (Close fd) s = vfs_close fd s"
| "run_op O_CLOEXEC (Dup fd newfd flags) s = Some (snd (vfs_dup O_CLOEXEC fd newfd flags s))"
| "run_op O_CLOEXEC (TakeRef f) s = Some (vfs_ref f s)"
| "run_op O_CLOEXEC (Release f) s = Some (vfs_release f s)"

fun run_ops :: "int \<Rightarrow> fd_op list \<Rightarrow> vfs_state \<Rightarrow> vfs_state option" where
  "run_ops O_CLOEXEC [] s = Some s"
| "run_ops O_CLOEXEC (x # xs) s =
     (case run_op O_CLOEXEC x s of None \<Rightarrow> None | Some s' \<Rightarrow> run_ops O_CLOEXEC xs s')"

text \<open>
  The same calls made by callers that keep the discipline of the source's own callers.
  Next to the state runs a ledger \<open>held\<close>: the number of references to each file that
  are held outside the table (the reference its creator got, and those taken with
  \<^verbatim>\<open>vfs_ref\<close>). The ledger is not part of the program; it says who may call what:
  \<^item> \<^verbatim>\<open>vfs_store_file\<close> hands one held reference over to the slot, and
    \<^verbatim>\<open>vfs_release\<close> gives one up: both need one;
  \<^item> \<^verbatim>\<open>vfs_ref\<close> needs a file whose \<^verbatim>\<open>close\<close> has not run (the object is destroyed
    there);
  \<^item> \<^verbatim>\<open>vfs_close\<close> needs an occupied slot.
  A step that breaks one of these is \<open>None\<close>; a step that keeps them changes the state
  as \<open>run_op\<close> does.
\<close>

fun apply_op ::
  "int \<Rightarrow> fd_op \<Rightarrow> vfs_state \<times> (file_ptr \<Rightarrow> nat) \<Rightarrow> (vfs_state \<times> (file_ptr \<Rightarrow> nat)) option"
where
  "apply_op O_CLOEXEC (Store f cloexec) (s, held) =
     (if held f = 0 then None
      else case vfs_store_file f cloexec s of
        (Return fd, s') \<Rightarrow> Some (s', held(f := held f - 1))
      | (r, s') \<Rightarrow> Some (s', held))"
| "apply_op O_CLOEXEC (Close fd) (s, held) =
     (case vfs_close fd s of None \<Rightarrow> None | Some s' \<Rightarrow> Some (s', held))"
| "apply_op O_CLOEXEC (Dup fd newfd flags) (s, held) =
     Some (snd (vfs_dup O_CLOEXEC fd newfd flags s), held)"
| "apply_op O_CLOEXEC (TakeRef f) (s, held) =
     (if f \<in> set (closed s) then None else Some (vfs_ref f s, held(f := held f + 1)))"
| "apply_op O_CLOEXEC (Release f) (s, held) =
     (if held f = 0 then None else Some (vfs_release f s, held(f := held f - 1)))"

fun apply_ops ::
  "int \<Rightarrow> fd_op list \<Rightarrow> vfs_state \<times> (file_ptr \<Rightarrow> nat) \<Rightarrow> (vfs_state \<times> (file_ptr \<Rightarrow> nat)) option"
where
  "apply_ops O_CLOEXEC [] st = Some st"
| "apply_ops O_CLOEXEC (x # xs) st =
     (case apply_op O_CLOEXEC x st of None \<Rightarrow> None | Some st' \<Rightarrow> apply_ops O_CLOEXEC xs st')"

text \<open>The number of slots of the table that hold the file \<open>f\<close>.\<close>

definition slots_holding :: "file_ptr \<Rightarrow> vfs_state \<Rightarrow> nat" where
  "slots_holding f s = count_list (fds s) (Some f)"

text \<open>
  The invariant of the reference count of one file \<open>f\<close>: the count is the number of
  slots that hold \<open>f\<close> plus the number of references held outside the table; while it
  is positive \<^verbatim>\<open>close\<close> has not run on \<open>f\<close>, and once it is zero \<^verbatim>\<open>close\<close> has
  run exactly once.
\<close>

definition refcount_inv :: "file_ptr \<Rightarrow> vfs_state \<Rightarrow> (file_ptr \<Rightarrow> nat) \<Rightarrow> bool" where
  "refcount_inv f s held =
     (ref s f = int (slots_holding f s) + int (held f)
      \<and> (if ref s f = 0 then count_list (closed s) f = 1
         else 0 < ref s f \<and> f \<notin> set (closed s)))"

section \<open>Signal core\<close>

text \<open>
  The constants of \<^verbatim>\<open>common/signal.h\<close> that the translated functions name. The
  header is not among the sources, so the functions take the constants as a parameter:
  nothing below depends on their values.
\<close>

record signal_h =
  NSIG :: int
  SIGHUP :: int
  SIGINT :: int
  SIGQUIT :: int
  SIGILL :: int
  SIGABRT :: int
  SIGFPE :: int
  SIGKILL :: int
  SIGSEGV :: int
  SIGPIPE :: int
  SIGALRM :: int
  SIGTERM :: int
  SIGUSR1 :: int
  SIGUSR2 :: int
  SIGSTOP :: int
  SIG_DFL :: "32 word"
  SIG_IGN :: "32 word"
  SIG_BLOCK :: int
  SIG_UNBLOCK :: int
  SIG_SETMASK :: int

type_synonym sigset_t = "64 word"

definition sizeof_sigset_t :: nat where
  "sizeof_sigset_t = 8"

text \<open>
  Modelled from the spec: the macros \<^verbatim>\<open>sigismember\<close> and \<^verbatim>\<open>sigaddset\<close> of
  \<^verbatim>\<open>common/signal.h\<close> are missing; the pending set is a bitset with one bit for each
  signal number.
\<close>

definition sigismember :: "sigset_t \<Rightarrow> int \<Rightarrow> bool" where
  "sigismember set' signo = (0 \<le> signo \<and> bit set' (nat signo))"

definition sigaddset :: "sigset_t \<Rightarrow> int \<Rightarrow> sigset_t" where
  "sigaddset set' signo = set_bit (nat signo) set'"

record sigaction =
  sa_handler :: "32 word"
  sa_flags :: "32 word"
  sa_restorer :: "32 word"
  sa_mask :: sigset_t

record siginfo =
  si_signo :: int
  si_errno :: int
  si_code :: int

datatype signal_packet =
  SIGNAL_PACKET_SHUTDOWN
| SIGNAL_PACKET_KILL siginfo
| SIGNAL_PACKET_DELIVER
| SIGNAL_PACKET_ADD_PROCESS nat

text \<open>
  \<^verbatim>\<open>struct signal_data\<close>. The arrays \<^verbatim>\<open>actions[_NSIG]\<close> and \<^verbatim>\<open>info[_NSIG]\<close> are
  functions of the index. The handles are modelled by what is done through them:
  \<open>sigwrite\<close> lists the packets written into the signal pipe, oldest first;
  \<open>sigevent\<close> is the state of the event; \<open>delivered\<close> lists the calls of
  \<^verbatim>\<open>dbt_deliver_signal\<close> on the suspended main thread, each with the siginfo stored for
  it; \<open>exited\<close> says that \<^verbatim>\<open>ExitProcess\<close> was called.
\<close>

record signal_data =
  actions :: "int \<Rightarrow> sigaction"
  mask :: sigset_t
  pending :: sigset_t
  info :: "int \<Rightarrow> siginfo"
  current_siginfo :: siginfo
  can_accept_signal :: bool
  sigwrite :: "signal_packet list"
  sigevent :: bool
  delivered :: "siginfo list"
  exited :: bool

definition signal_default_handler :: "signal_h \<Rightarrow> siginfo \<Rightarrow> signal_data \<Rightarrow> signal_data" where
  "signal_default_handler h info' s =
     (if si_signo info' \<in> set [SIGHUP h, SIGINT h, SIGQUIT h, SIGILL h, SIGABRT h, SIGFPE h,
                              SIGKILL h, SIGSEGV h, SIGPIPE h, SIGALRM h, SIGTERM h, SIGUSR1 h,
                              SIGUSR2 h]
      then s\<lparr>exited := True\<rparr> else s)"

definition signal_deliver :: "signal_h \<Rightarrow> siginfo \<Rightarrow> signal_data \<Rightarrow> signal_data" where
  "signal_deliver h info' s =
     (if sa_handler (actions s (si_signo info')) = SIG_IGN h then s
      else if sa_handler (actions s (si_signo info')) = SIG_DFL h then signal_default_handler h info' s
      else s\<lparr>can_accept_signal := False, current_siginfo := info', sigevent := True,
             delivered := delivered s @ [info']\<rparr>)"

text \<open>
  \<^verbatim>\<open>signal_thread_handle_kill\<close>, the body between \<^verbatim>\<open>EnterCriticalSection\<close> and
  \<^verbatim>\<open>LeaveCriticalSection\<close>. The function does not test \<^verbatim>\<open>signo\<close>; a number that is
  no index of \<^verbatim>\<open>info[_NSIG]\<close> and \<^verbatim>\<open>actions[_NSIG]\<close> makes the call undefined.
\<close>

definition signal_thread_handle_kill :: "signal_h \<Rightarrow> siginfo \<Rightarrow> signal_data \<Rightarrow> signal_data option" where
  "signal_thread_handle_kill h info' s =
     (let signo = si_signo info' in
      if signo < 0 \<or> signo \<ge> NSIG h then None
      else if \<not> sigismember (pending s) signo then
        (if sigismember (mask s) signo \<or> \<not> can_accept_signal s then
           Some (s\<lparr>pending := sigaddset (pending s) signo, info := (info s)(signo := info')\<rparr>)
         else Some (signal_deliver h info' s))
      else Some s)"

text \<open>
  \<^verbatim>\<open>send_packet\<close> writes one packet into the pipe; the source has no path for a
  failing \<^verbatim>\<open>WriteFile\<close>. \<^verbatim>\<open>send_pending_signal\<close> is called with the mutex held.
\<close>

definition send_packet :: "signal_packet \<Rightarrow> signal_data \<Rightarrow> signal_data" where
  "send_packet packet s = s\<lparr>sigwrite := sigwrite s @ [packet]\<rparr>"

definition send_pending_signal :: "signal_data \<Rightarrow> signal_data" where
  "send_pending_signal s =
     (if pending s AND NOT (mask s) \<noteq> 0 then send_packet SIGNAL_PACKET_DELIVER s else s)"

text \<open>
  A pointer argument of \<^verbatim>\<open>rt_sigaction\<close>: NULL, an address that \<^verbatim>\<open>mm_check_read\<close>
  or \<^verbatim>\<open>mm_check_write\<close> refuses, or an address that holds a value (for a pointer
  that is only written, the value does not matter). The layout of
  \<^verbatim>\<open>struct sigaction\<close> is in a header outside the translated file, so the two objects
  are not placed in a memory: the model takes \<^verbatim>\<open>act\<close> and \<^verbatim>\<open>oldact\<close> as apart.
\<close>

datatype 'a user_ptr = Null | Unmapped | Mapped 'a

text \<open>
  \<^verbatim>\<open>sys_rt_sigaction(signum, act, oldact, sigsetsize)\<close>; the third component of the
  result is what was copied to \<^verbatim>\<open>*oldact\<close>.
\<close>

definition sys_rt_sigaction ::
  "signal_h \<Rightarrow> int \<Rightarrow> sigaction user_ptr \<Rightarrow> unit user_ptr \<Rightarrow> nat \<Rightarrow> signal_data
     \<Rightarrow> int outcome \<times> signal_data \<times> sigaction option"
where
  "sys_rt_sigaction h signum act oldact sigsetsize s =
     (if sigsetsize \<noteq> sizeof_sigset_t then (Fail EINVAL, s, None)
      else if signum < 0 \<or> signum \<ge> NSIG h \<or> signum = SIGKILL h \<or> signum = SIGSTOP h
        then (Fail EINVAL, s, None)
      else if act = Unmapped then (Fail EFAULT, s, None)
      else if oldact = Unmapped then (Fail EFAULT, s, None)
      else
        (Return 0,
         (case act of Mapped a \<Rightarrow> s\<lparr>actions := (actions s)(signum := a)\<rparr> | _ \<Rightarrow> s),
         (case oldact of Mapped u \<Rightarrow> Some (actions s signum) | _ \<Rightarrow> None)))"

text \<open>
  \<^verbatim>\<open>sys_rt_sigprocmask(how, set, oldset, sigsetsize)\<close>. The pointers \<^verbatim>\<open>set\<close> and
  \<^verbatim>\<open>oldset\<close> are addresses of the guest, which may be equal or overlap, so the memory
  of the guest is part of the state: one byte for each address of the 32-bit guest, a
  \<^verbatim>\<open>sigset_t\<close> being eight bytes, lowest byte first. NULL is the address 0. The
  verdicts of \<^verbatim>\<open>mm_check_read\<close> and \<^verbatim>\<open>mm_check_write\<close>, which are outside the
  translated file, are parameters.

  The source stores the old mask through \<^verbatim>\<open>oldset\<close> before it reads \<^verbatim>\<open>*set\<close>; the
  model does the same, so what is read through \<^verbatim>\<open>set\<close> is read from the memory after
  that store.
\<close>

type_synonym addr = "32 word"

type_synonym memory = "addr \<Rightarrow> 8 word"

definition load_sigset :: "memory \<Rightarrow> addr \<Rightarrow> sigset_t" where
  "load_sigset mem a =
     fold (\<lambda>i w. w OR push_bit (8 * i) (ucast (mem (a + of_nat i)))) [0..<8] 0"

definition store_sigset :: "addr \<Rightarrow> sigset_t \<Rightarrow> memory \<Rightarrow> memory" where
  "store_sigset a v mem =
     fold (\<lambda>i m. m(a + of_nat i := ucast (drop_bit (8 * i) v))) [0..<8] mem"

definition sys_rt_sigprocmask ::
  "signal_h \<Rightarrow> (addr \<Rightarrow> nat \<Rightarrow> bool) \<Rightarrow> (addr \<Rightarrow> nat \<Rightarrow> bool) \<Rightarrow> int \<Rightarrow> addr \<Rightarrow> addr \<Rightarrow> nat
     \<Rightarrow> signal_data \<Rightarrow> memory \<Rightarrow> int outcome \<times> signal_data \<times> memory"
where
  "sys_rt_sigprocmask h mm_check_read mm_check_write how set' oldset sigsetsize s mem =
     (if sigsetsize \<noteq> sizeof_sigset_t then (Fail EINVAL, s, mem)
      else if how \<noteq> SIG_BLOCK h \<and> how \<noteq> SIG_UNBLOCK h \<and> how \<noteq> SIG_SETMASK h
        then (Fail EINVAL, s, mem)
      else if set' \<noteq> 0 \<and> \<not> mm_check_read set' sizeof_sigset_t then (Fail EFAULT, s, mem)
      else if oldset \<noteq> 0 \<and> \<not> mm_check_write oldset sizeof_sigset_t then (Fail EFAULT, s, mem)
      else
        (let mem' = (if oldset \<noteq> 0 then store_sigset oldset (mask s) mem else mem);
             s' =
               (if set' \<noteq> 0 then
                  (if how = SIG_BLOCK h then s\<lparr>mask := mask s OR load_sigset mem' set'\<rparr>
                   else if how = SIG_UNBLOCK h
                     then s\<lparr>mask := mask s AND NOT (load_sigset mem' set')\<rparr>
                   else if how = SIG_SETMASK h then s\<lparr>mask := load_sigset mem' set'\<rparr>
                   else s)
                else s)
         in (Return 0, send_pending_signal s', mem')))"

section \<open>Concrete instances\<close>

text \<open>
  Values for the examples below: the signal numbers of Linux on i386, and the state that
  \<^verbatim>\<open>signal_init\<close> and \<^verbatim>\<open>signal_init_private\<close> leave (the fields they do not
  assign are taken as zero).
\<close>

definition linux_signal_h :: signal_h where
  "linux_signal_h = \<lparr>NSIG = 64, SIGHUP = 1, SIGINT = 2, SIGQUIT = 3, SIGILL = 4, SIGABRT = 6,
     SIGFPE = 8, SIGKILL = 9, SIGSEGV = 11, SIGPIPE = 13, SIGALRM = 14, SIGTERM = 15,
     SIGUSR1 = 10, SIGUSR2 = 12, SIGSTOP = 19, SIG_DFL = 0, SIG_IGN = 1,
     SIG_BLOCK = 0, SIG_UNBLOCK = 1, SIG_SETMASK = 2\<rparr>"

definition signal_init :: signal_data where
  "signal_init =
     \<lparr>actions = (\<lambda>i. \<lparr>sa_handler = 0, sa_flags = 0, sa_restorer = 0, sa_mask = 0\<rparr>),
      mask = 0, pending = 0, info = (\<lambda>i. \<lparr>si_signo = 0, si_errno = 0, si_code = 0\<rparr>),
      current_siginfo = \<lparr>si_signo = 0, si_errno = 0, si_code = 0\<rparr>,
      can_accept_signal = True, sigwrite = [], sigevent = False, delivered = [],
      exited = False\<rparr>"

text \<open>SIGUSR1 is pending and blocked.\<close>

definition usr1_blocked :: signal_data where
  "usr1_blocked = signal_init\<lparr>mask := 1024, pending := 1024\<rparr>"

text \<open>
  A memory of the guest in which every byte is zero, and checks of the memory manager
  that accept every address.
\<close>

definition zero_memory :: memory where
  "zero_memory = (\<lambda>a. 0)"

definition all_mapped :: "addr \<Rightarrow> nat \<Rightarrow> bool" where
  "all_mapped a n = True"

text \<open>The same memory with the set that holds SIGUSR1 alone stored at \<^verbatim>\<open>0x1000\<close>.\<close>

definition usr1_at_1000 :: memory where
  "usr1_at_1000 = store_sigset 0x1000 1024 zero_memory"

text \<open>
  A filesystem mounted at the root in which \<^verbatim>\<open>a\<close> is a symbolic link to \<^verbatim>\<open>/a\<close>
  (scenario S3), one in which \<^verbatim>\<open>link\<close> is a symbolic link to \<^verbatim>\<open>/real\<close> and
  \<^verbatim>\<open>real/file\<close> a regular file (scenario S2), and a content for the array
  \<^verbatim>\<open>target\<close> before its first use.
\<close>

definition loop_fs :: file_system where
  "loop_fs =
     \<lparr>mountpoint = ''/'',
      fs_open = Some (\<lambda>name flags mode.
                        if name = ''a'' then IsSymlink ''/a'' else OpenFailed ENOENT),
      fs_readlink = None\<rparr>"

definition link_fs :: file_system where
  "link_fs =
     \<lparr>mountpoint = ''/'',
      fs_open = Some (\<lambda>name flags mode.
                        if name = ''real/file'' then Opened 7 else OpenFailed ENOENT),
      fs_readlink = Some (\<lambda>name. if name = ''link'' then Inr ''/real'' else Inl ENOENT)\<rparr>"

definition stack_x :: buffer where
  "stack_x = (\<lambda>i. CHR ''x'')"

definition stack_slash :: buffer where
  "stack_slash = (\<lambda>i. CHR ''/'')"

text \<open>
  A filesystem mounted at the root in which \<^verbatim>\<open>d\<close> is a symbolic link to \<^verbatim>\<open>/d\<close>,
  and nothing else exists: every \<^verbatim>\<open>open\<close> of a name below \<^verbatim>\<open>d\<close> fails with
  \<^verbatim>\<open>-ENOENT\<close>, as the host does for a path through a link (scenario S2), and
  \<^verbatim>\<open>readlink\<close> of \<^verbatim>\<open>d\<close> gives the two bytes of \<^verbatim>\<open>/d\<close>. Resolving \<^verbatim>\<open>/d/x\<close>
  meets the link \<^verbatim>\<open>d\<close> again after every hop. \<open>rel_loop_fs\<close> is the same
  filesystem with the link's target written as the relative path \<^verbatim>\<open>d\<close>, and
  \<open>two_dirs_fs\<close> has the loop in two hops, \<^verbatim>\<open>a\<close> linking to \<^verbatim>\<open>/b\<close> and \<^verbatim>\<open>b\<close> to
  \<^verbatim>\<open>/a\<close>.
\<close>

definition dir_loop_fs :: file_system where
  "dir_loop_fs =
     \<lparr>mountpoint = ''/'',
      fs_open = Some (\<lambda>name flags mode.
                        if name = ''d'' then IsSymlink ''/d'' else OpenFailed ENOENT),
      fs_readlink = Some (\<lambda>name. if name = ''d'' then Inr ''/d'' else Inl ENOENT)\<rparr>"


definition two_dirs_fs :: file_system where
  "two_dirs_fs =
     \<lparr>mountpoint = ''/'',
      fs_open = Some (\<lambda>name flags mode.
                        if name = ''a'' then IsSymlink ''/b''
                        else if name = ''b'' then IsSymlink ''/a'' else OpenFailed ENOENT),
      fs_readlink = Some (\<lambda>name. if name = ''a'' then Inr ''/b''
                                  else if name = ''b'' then Inr ''/a'' else Inl ENOENT)\<rparr>"

text \<open>
  A table of six slots for scenario S6: descriptors 0 to 4 are open, 1 and 2 on the same
  file, and slot 5 is empty. \<open>new_pipe\<close> is an allocator that gives two new files with
  one reference each.
\<close>

definition table6 :: vfs_state where
  "table6 =
     \<lparr>fds = [Some 1, Some 2, Some 2, Some 3, Some 4, None],
      fds_cloexec = [0, 0, 0, 0, 1, 0], fs_first = [], cwd = ''/'', umask = 18,
      ref = (\<lambda>f. if f = 2 then 2 else 1), closed = []\<rparr>"

definition new_pipe :: "int \<Rightarrow> vfs_state \<Rightarrow> (errno + file_ptr \<times> file_ptr) \<times> vfs_state" where
  "new_pipe flags s = (Inr (50, 51), s\<lparr>ref := (ref s)(50 := 1, 51 := 1)\<rparr>)"

text \<open>
  On the table of six slots: borrow the file of descriptor 3 and store the borrowed
  reference in the empty slot 5; close descriptor 3; duplicate descriptor 5 into the
  slot that became free; borrow the file again, close both descriptors and give the
  borrowed reference back.
\<close>

definition borrow_store_dup :: "fd_op list" where
  "borrow_store_dup =
     [TakeRef 3, Store 3 0, Close 3, Dup 5 (- 1) 0, TakeRef 3, Close 5, Close 3, Release 3]"

text \<open>
  The registry as \<^verbatim>\<open>vfs_init\<close> fills it: the host filesystem at the root is added
  first, the device filesystem at \<^verbatim>\<open>/dev\<close> second.
\<close>

definition winfs :: file_system where
  "winfs = \<lparr>mountpoint = ''/'', fs_open = None, fs_readlink = None\<rparr>"

definition devfs :: file_system where
  "devfs = \<lparr>mountpoint = ''/dev'', fs_open = None, fs_readlink = None\<rparr>"

section \<open>Path normaliser: the scenarios\<close>

text \<open>
  C1, first and third scenario of S1, which the code meets.
\<close>

lemma normalize_path_S1_first: "normalize_path ''/a/b'' ''../c/./d//e/..'' = Some ''/a/c/d''"
  by code_simp

lemma normalize_path_S1_third: "normalize_path ''/x/'' ''y/.'' = Some ''/x/y/.''"
  by code_simp

text \<open>
  C1: the second scenario of S1 asks \<^verbatim>\<open>normalize("/", "..")\<close> to be \<^verbatim>\<open>"/"\<close>, and
  the \<^verbatim>\<open>..\<close> case never to pop the leading slash. In the code the decrement
  \<^verbatim>\<open>p--\<close> before the guarded loop removes the root's slash itself, and the result is the
  empty string.
\<close>

theorem normalize_path_root_dotdot: "normalize_path ''/'' ''..'' = Some ''''"
  by code_simp

subsection \<open>Idempotence\<close>

lemma slashed_simps [simp]:
  "slashed [] = []" "slashed (c # cs) = c @ ''/'' @ slashed cs"
  "slashed (cs @ ds) = slashed cs @ slashed ds"
  by (simp_all add: slashed_def)

lemma name_cases:
  assumes "ordinary_name (x # xs)"
  shows "x \<noteq> CHR ''/''"
    and "\<not> (x = CHR ''.'' \<and> take 1 (xs @ rest) = ''/'' \<and> xs = [])"
    and "take 1 (xs @ CHR ''/'' # rest) = ''/'' \<longleftrightarrow> xs = []"
    and "x = CHR ''.'' \<Longrightarrow> xs \<noteq> []"
    and "x = CHR ''.'' \<Longrightarrow> take 1 xs = ''.'' \<Longrightarrow> drop 1 xs \<noteq> [] \<and> take 1 (drop 1 xs) \<noteq> ''/''"
  using assms by (cases xs; cases "tl xs"; auto simp: ordinary_name_def)+

lemma loop_name:
  assumes "ordinary_name c"
  shows "normalize_loop (c @ CHR ''/'' # rest) out = normalize_loop rest (out @ c @ ''/'')"
proof -
  from assms obtain x xs where c: "c = x # xs"
    by (cases c) (auto simp: ordinary_name_def)
  from assms c have noslash: "\<And>y. y \<in> set (x # xs) \<Longrightarrow> y \<noteq> CHR ''/''"
    by (auto simp: ordinary_name_def)
  have tw: "takeWhile (\<lambda>y. y \<noteq> CHR ''/'') (xs @ CHR ''/'' # rest) = xs"
    using takeWhile_append2 [of xs "\<lambda>y. y \<noteq> CHR ''/''" "CHR ''/'' # rest"] noslash
    by simp
  have dw: "dropWhile (\<lambda>y. y \<noteq> CHR ''/'') (xs @ CHR ''/'' # rest) = CHR ''/'' # rest"
    using dropWhile_append2 [of xs "\<lambda>y. y \<noteq> CHR ''/''" "CHR ''/'' # rest"] noslash
    by simp
  note nc = name_cases [OF assms [unfolded c]]
  have b1: "x \<noteq> CHR ''/''" by (rule nc(1))
  have b2: "\<not> (x = CHR ''.'' \<and> take 1 (xs @ CHR ''/'' # rest) = ''/'')"
    using nc(3) [of rest] nc(4) by auto
  have b3: "xs @ CHR ''/'' # rest \<noteq> []" by simp
  have b4: "\<not> (x = CHR ''.'' \<and> take 1 (xs @ CHR ''/'' # rest) = ''.'' \<and>
      (take 1 (drop 1 (xs @ CHR ''/'' # rest)) = ''/'' \<or> drop 1 (xs @ CHR ''/'' # rest) = []))"
  proof (cases xs)
    case Nil
    then show ?thesis by simp
  next
    case (Cons y ys)
    with nc(5) show ?thesis by (cases ys) auto
  qed
  have "normalize_loop (x # (xs @ CHR ''/'' # rest)) out = normalize_loop rest (out @ (x # xs) @ ''/'')"
    by (subst normalize_loop.simps(2), simp only: b1 b2 b3 b4 if_False simp_thms)
      (simp add: b1 tw dw Let_def del: normalize_loop.simps)
  with c show ?thesis by simp
qed

lemma loop_names:
  "list_all ordinary_name cs \<Longrightarrow>
     normalize_loop (slashed cs @ rest) out = normalize_loop rest (out @ slashed cs)"
proof (induction cs arbitrary: out)
  case Nil
  show ?case by simp
next
  case (Cons c cs)
  then have c: "ordinary_name c" and cs: "list_all ordinary_name cs" by simp_all
  have "normalize_loop (slashed (c # cs) @ rest) out =
      normalize_loop (c @ CHR ''/'' # (slashed cs @ rest)) out"
    by simp
  also have "\<dots> = normalize_loop (slashed cs @ rest) (out @ c @ ''/'')"
    by (rule loop_name [OF c])
  also have "\<dots> = normalize_loop rest ((out @ c @ ''/'') @ slashed cs)"
    by (rule Cons.IH [OF cs])
  finally show ?case by simp
qed

lemma loop_last:
  assumes "ordinary_name t"
  shows "normalize_loop t out = Some (out @ t)"
proof -
  from assms obtain x xs where t: "t = x # xs"
    by (cases t) (auto simp: ordinary_name_def)
  from assms t have noslash: "\<And>y. y \<in> set xs \<Longrightarrow> y \<noteq> CHR ''/''"
    by (auto simp: ordinary_name_def)
  have tw: "takeWhile (\<lambda>y. y \<noteq> CHR ''/'') xs = xs"
    using noslash by simp
  have dw: "dropWhile (\<lambda>y. y \<noteq> CHR ''/'') xs = []"
    using noslash by simp
  note nc = name_cases [OF assms [unfolded t]]
  have b1: "x \<noteq> CHR ''/''" by (rule nc(1))
  have b2: "\<not> (x = CHR ''.'' \<and> take 1 xs = ''/'')"
    using noslash by (cases xs) auto
  have b3: "\<not> (x = CHR ''.'' \<and> xs = [])"
    using nc(4) by blast
  have b4: "\<not> (x = CHR ''.'' \<and> take 1 xs = ''.'' \<and>
      (take 1 (drop 1 xs) = ''/'' \<or> drop 1 xs = []))"
    using nc(5) by blast
  have "normalize_loop (x # xs) out = Some (out @ x # xs)"
    by (subst normalize_loop.simps(2), simp only: b1 b2 b3 b4 if_False simp_thms)
      (simp add: b1 tw dw Let_def del: normalize_loop.simps(2))
  with t show ?thesis by simp
qed

lemma last_slashed: "cs \<noteq> [] \<Longrightarrow> last (slashed cs) = CHR ''/''"
  by (induction cs) (auto simp: slashed_def)

lemma normalised_fixed:
  assumes "normalised q"
  shows "normalize_path ''/'' q = Some q"
proof -
  from assms obtain cs t where q: "q = ''/'' @ slashed cs @ t"
    and cs: "list_all ordinary_name cs"
    and t: "t = [] \<and> cs = [] \<or> t = ''.'' \<or> ordinary_name t"
    by (auto simp: normalised_def)
  have start: "normalize_path ''/'' q =
      (case normalize_loop t (''/'' @ slashed cs) of
         None \<Rightarrow> None
       | Some p \<Rightarrow> Some (if 1 < length p \<and> last p = CHR ''/'' then butlast p else p))"
    using loop_names [OF cs, of t "''/''"] by (simp add: normalize_path_def q)
  from t show ?thesis
  proof (elim disjE conjE)
    assume "t = []" "cs = []"
    with start q show ?thesis by simp
  next
    assume "t = ''.''"
    with start q show ?thesis by simp
  next
    assume o: "ordinary_name t"
    then have "t \<noteq> []" "CHR ''/'' \<notin> set t"
      by (auto simp: ordinary_name_def)
    then have "t \<noteq> []" "last t \<noteq> CHR ''/''"
      by (metis, metis last_in_set)
    with start q loop_last [OF o, of "''/'' @ slashed cs"] show ?thesis by simp
  qed
qed

lemma back_to_slash_relative:
  "take 1 s \<noteq> ''/'' \<Longrightarrow> take 1 (back_to_slash s) \<noteq> ''/''"
proof (induction s rule: back_to_slash.induct)
  case (1 out)
  show ?case
  proof (cases "out \<noteq> [] \<and> last out \<noteq> CHR ''/''")
    case True
    with "1.prems" have "take 1 (butlast out) \<noteq> ''/''"
      by (cases out) (auto split: if_splits)
    with "1.IH" True show ?thesis
      by (subst back_to_slash.simps) simp
  next
    case False
    with "1.prems" show ?thesis
      by (subst back_to_slash.simps) auto
  qed
qed

lemma pop_relative:
  assumes rel: "take 1 out \<noteq> ''/''" and pop: "pop_component out = Some out'"
  shows "take 1 out' \<noteq> ''/''"
proof -
  from pop have ne: "out \<noteq> []" and out': "out' = back_to_slash (butlast out)"
    by (auto simp: pop_component_def split: if_splits)
  from rel ne have "take 1 (butlast out) \<noteq> ''/''"
    by (cases out) (auto split: if_splits)
  then show ?thesis
    unfolding out' by (rule back_to_slash_relative)
qed

lemma append_relative:
  "take 1 out \<noteq> ''/'' \<Longrightarrow> c \<noteq> CHR ''/'' \<Longrightarrow> take 1 (out @ c # tl') \<noteq> ''/''"
  by (cases out) auto

text \<open>The five branches of the loop, one equation each.\<close>

lemma loop_slash: "normalize_loop (CHR ''/'' # cs) out = normalize_loop cs out"
  by simp

lemma loop_dotslash:
  assumes "c \<noteq> CHR ''/''" "c = CHR ''.'' \<and> take 1 cs = ''/''"
  shows "normalize_loop (c # cs) out = normalize_loop (drop 1 cs) out"
  by (subst normalize_loop.simps(2)) (simp only: if_not_P [OF assms(1)] if_P [OF assms(2)])

lemma loop_dot:
  assumes "c \<noteq> CHR ''/''" "\<not> (c = CHR ''.'' \<and> take 1 cs = ''/'')" "c = CHR ''.'' \<and> cs = []"
  shows "normalize_loop (c # cs) out = Some (out @ [c])"
proof -
  have "normalize_loop (c # cs) out = normalize_loop cs (out @ [c])"
    by (subst normalize_loop.simps(2))
      (simp only: if_not_P [OF assms(1)] if_not_P [OF assms(2)] if_P [OF assms(3)])
  with assms(3) show ?thesis by simp
qed

lemma loop_dotdot:
  assumes "c \<noteq> CHR ''/''" "\<not> (c = CHR ''.'' \<and> take 1 cs = ''/'')"
    "\<not> (c = CHR ''.'' \<and> cs = [])"
    "c = CHR ''.'' \<and> take 1 cs = ''.'' \<and> (take 1 (drop 1 cs) = ''/'' \<or> drop 1 cs = [])"
  shows "normalize_loop (c # cs) out =
    (case pop_component out of
       None \<Rightarrow> None
     | Some out' \<Rightarrow> normalize_loop (drop (if drop 1 cs = [] then 1 else 2) cs) out')"
  by (subst normalize_loop.simps(2))
    (simp only: if_not_P [OF assms(1)] if_not_P [OF assms(2)] if_not_P [OF assms(3)]
      if_P [OF assms(4)])

lemma loop_name_slash:
  assumes "c \<noteq> CHR ''/''" "\<not> (c = CHR ''.'' \<and> take 1 cs = ''/'')"
    "\<not> (c = CHR ''.'' \<and> cs = [])"
    "\<not> (c = CHR ''.'' \<and> take 1 cs = ''.'' \<and> (take 1 (drop 1 cs) = ''/'' \<or> drop 1 cs = []))"
    "take 1 (dropWhile (\<lambda>x. x \<noteq> CHR ''/'') cs) = ''/''"
  shows "normalize_loop (c # cs) out =
    normalize_loop (drop 1 (dropWhile (\<lambda>x. x \<noteq> CHR ''/'') cs))
      (out @ takeWhile (\<lambda>x. x \<noteq> CHR ''/'') (c # cs) @ ''/'')"
  by (subst normalize_loop.simps(2))
    (simp only: if_not_P [OF assms(1)] if_not_P [OF assms(2)] if_not_P [OF assms(3)]
      if_not_P [OF assms(4)] Let_def if_P [OF assms(5)])

lemma loop_name_end:
  assumes "c \<noteq> CHR ''/''" "\<not> (c = CHR ''.'' \<and> take 1 cs = ''/'')"
    "\<not> (c = CHR ''.'' \<and> cs = [])"
    "\<not> (c = CHR ''.'' \<and> take 1 cs = ''.'' \<and> (take 1 (drop 1 cs) = ''/'' \<or> drop 1 cs = []))"
    "take 1 (dropWhile (\<lambda>x. x \<noteq> CHR ''/'') cs) \<noteq> ''/''"
  shows "normalize_loop (c # cs) out =
    normalize_loop (dropWhile (\<lambda>x. x \<noteq> CHR ''/'') cs)
      (out @ takeWhile (\<lambda>x. x \<noteq> CHR ''/'') (c # cs))"
  by (subst normalize_loop.simps(2))
    (simp only: if_not_P [OF assms(1)] if_not_P [OF assms(2)] if_not_P [OF assms(3)]
      if_not_P [OF assms(4)] Let_def if_not_P [OF assms(5)])

lemma loop_relative:
  "take 1 out \<noteq> ''/'' \<Longrightarrow> normalize_loop p out = Some r \<Longrightarrow> take 1 r \<noteq> ''/''"
proof (induction p out arbitrary: r rule: normalize_loop.induct)
  case (1 out)
  then show ?case by simp
next
  case (2 c cs out)
  let ?name = "takeWhile (\<lambda>x. x \<noteq> CHR ''/'') (c # cs)"
  let ?rest = "dropWhile (\<lambda>x. x \<noteq> CHR ''/'') cs"
  consider (slash) "c = CHR ''/''"
    | (dotslash) "c \<noteq> CHR ''/''" "c = CHR ''.'' \<and> take 1 cs = ''/''"
    | (dot) "c \<noteq> CHR ''/''" "\<not> (c = CHR ''.'' \<and> take 1 cs = ''/'')" "c = CHR ''.'' \<and> cs = []"
    | (dotdot) "c \<noteq> CHR ''/''" "\<not> (c = CHR ''.'' \<and> take 1 cs = ''/'')"
        "\<not> (c = CHR ''.'' \<and> cs = [])"
        "c = CHR ''.'' \<and> take 1 cs = ''.'' \<and> (take 1 (drop 1 cs) = ''/'' \<or> drop 1 cs = [])"
    | (name) "c \<noteq> CHR ''/''" "\<not> (c = CHR ''.'' \<and> take 1 cs = ''/'')"
        "\<not> (c = CHR ''.'' \<and> cs = [])"
        "\<not> (c = CHR ''.'' \<and> take 1 cs = ''.'' \<and> (take 1 (drop 1 cs) = ''/'' \<or> drop 1 cs = []))"
    by blast
  then show ?case
  proof cases
    case slash
    from "2.prems"(2) have "normalize_loop cs out = Some r"
      unfolding slash loop_slash .
    from "2.IH"(1) [OF slash "2.prems"(1) this] show ?thesis .
  next
    case dotslash
    from "2.prems"(2) have "normalize_loop (drop 1 cs) out = Some r"
      unfolding loop_dotslash [OF dotslash] .
    from "2.IH"(2) [OF dotslash "2.prems"(1) this] show ?thesis .
  next
    case dot
    from "2.prems"(2) have "r = out @ [c]"
      unfolding loop_dot [OF dot] by simp
    with append_relative [OF "2.prems"(1) dot(1), of "[]"] show ?thesis by simp
  next
    case dotdot
    from "2.prems"(2) obtain out' where pop: "pop_component out = Some out'"
      and run: "normalize_loop (drop (if drop 1 cs = [] then 1 else 2) cs) out' = Some r"
      unfolding loop_dotdot [OF dotdot] by (cases "pop_component out") simp_all
    from pop_relative [OF "2.prems"(1) pop] have "take 1 out' \<noteq> ''/''" .
    from "2.IH"(4) [OF dotdot pop this run] show ?thesis .
  next
    case name
    have nm: "?name = c # takeWhile (\<lambda>x. x \<noteq> CHR ''/'') cs"
      using name(1) by simp
    show ?thesis
    proof (cases "take 1 ?rest = ''/''")
      case True
      from "2.prems"(2) have run: "normalize_loop (drop 1 ?rest) (out @ ?name @ ''/'') = Some r"
        unfolding loop_name_slash [OF name True] .
      have "take 1 (out @ ?name @ ''/'') \<noteq> ''/''"
        unfolding nm using append_relative [OF "2.prems"(1) name(1)] by simp
      from "2.IH"(5) [OF name refl refl True this run] show ?thesis .
    next
      case False
      from "2.prems"(2) have run: "normalize_loop ?rest (out @ ?name) = Some r"
        unfolding loop_name_end [OF name False] .
      have "take 1 (out @ ?name) \<noteq> ''/''"
        unfolding nm using append_relative [OF "2.prems"(1) name(1)] by simp
      from "2.IH"(6) [OF name refl refl False this run] show ?thesis .
    qed
  qed
qed

lemma back_to_slash_stop: "s = [] \<or> last s = CHR ''/'' \<Longrightarrow> back_to_slash s = s"
  by (subst back_to_slash.simps) auto

lemma back_to_slash_name:
  "CHR ''/'' \<notin> set d \<Longrightarrow> back_to_slash (s @ d) = back_to_slash s"
proof (induction d rule: rev_induct)
  case Nil
  show ?case by simp
next
  case (snoc y ys)
  then have "y \<noteq> CHR ''/''" and ys: "CHR ''/'' \<notin> set ys" by auto
  then have "back_to_slash (s @ ys @ [y]) = back_to_slash (butlast (s @ ys @ [y]))"
    by (subst back_to_slash.simps) simp
  also have "\<dots> = back_to_slash (s @ ys)"
    by (simp add: butlast_append)
  also have "\<dots> = back_to_slash s"
    by (rule snoc.IH [OF ys])
  finally show ?case by simp
qed

lemma pop_root: "pop_component ''/'' = Some []"
  by (simp add: pop_component_def back_to_slash_stop)

lemma pop_absolute:
  assumes "ordinary_name d"
  shows "pop_component (''/'' @ slashed (ds @ [d])) = Some (''/'' @ slashed ds)"
proof -
  have "butlast (''/'' @ slashed (ds @ [d])) = (''/'' @ slashed ds) @ d"
    by (simp add: butlast_append)
  moreover have "back_to_slash ((''/'' @ slashed ds) @ d) = back_to_slash (''/'' @ slashed ds)"
    using assms by (intro back_to_slash_name) (simp add: ordinary_name_def)
  moreover have "back_to_slash (''/'' @ slashed ds) = ''/'' @ slashed ds"
    by (rule back_to_slash_stop) (cases "ds = []"; simp add: last_slashed)
  ultimately show ?thesis
    by (simp add: pop_component_def)
qed

lemma name_ordinary:
  assumes "c \<noteq> CHR ''/''" "\<not> (c = CHR ''.'' \<and> take 1 cs = ''/'')"
    "\<not> (c = CHR ''.'' \<and> cs = [])"
    "\<not> (c = CHR ''.'' \<and> take 1 cs = ''.'' \<and> (take 1 (drop 1 cs) = ''/'' \<or> drop 1 cs = []))"
  shows "ordinary_name (takeWhile (\<lambda>x. x \<noteq> CHR ''/'') (c # cs))"
proof -
  let ?P = "\<lambda>x. x \<noteq> CHR ''/''"
  have nm: "takeWhile ?P (c # cs) = c # takeWhile ?P cs"
    using assms(1) by simp
  have noslash: "CHR ''/'' \<notin> set (takeWhile ?P (c # cs))"
    using set_takeWhileD [of "CHR ''/''" ?P "c # cs"] by blast
  have notdot: "c # takeWhile ?P cs \<noteq> ''.''"
  proof
    assume "c # takeWhile ?P cs = ''.''"
    then have "c = CHR ''.''" "takeWhile ?P cs = []" by simp_all
    with assms(2,3) show False by (cases cs) (auto split: if_splits)
  qed
  have notdotdot: "c # takeWhile ?P cs \<noteq> ''..''"
  proof
    assume "c # takeWhile ?P cs = ''..''"
    then have c: "c = CHR ''.''" and tw: "takeWhile ?P cs = ''.''" by simp_all
    from tw obtain cs' where cs: "cs = CHR ''.'' # cs'" and tw': "takeWhile ?P cs' = []"
      by (cases cs) (auto split: if_splits)
    from tw' have "cs' = [] \<or> take 1 cs' = ''/''"
      by (cases cs') (auto split: if_splits)
    with assms(4) c cs show False by auto
  qed
  from nm noslash notdot notdotdot show ?thesis
    by (simp add: ordinary_name_def)
qed

lemma rest_empty:
  "take 1 (dropWhile (\<lambda>x. x \<noteq> CHR ''/'') cs) \<noteq> ''/'' \<Longrightarrow>
     dropWhile (\<lambda>x. x \<noteq> CHR ''/'') cs = []"
  using hd_dropWhile [of "\<lambda>x. x \<noteq> CHR ''/''" cs]
  by (cases "dropWhile (\<lambda>x. x \<noteq> CHR ''/'') cs") auto

lemma loop_absolute:
  "out = ''/'' @ slashed ds \<Longrightarrow> list_all ordinary_name ds \<Longrightarrow>
     normalize_loop p out = Some r \<Longrightarrow> take 1 r = ''/'' \<Longrightarrow> loop_result r"
proof (induction p out arbitrary: ds r rule: normalize_loop.induct)
  case (1 out)
  then have "r = ''/'' @ slashed ds @ []" by simp
  with "1.prems"(2) show ?case
    unfolding loop_result_def by blast
next
  case (2 c cs out)
  let ?name = "takeWhile (\<lambda>x. x \<noteq> CHR ''/'') (c # cs)"
  let ?rest = "dropWhile (\<lambda>x. x \<noteq> CHR ''/'') cs"
  note out = "2.prems"(1) and ds = "2.prems"(2) and run = "2.prems"(3) and abs = "2.prems"(4)
  consider (slash) "c = CHR ''/''"
    | (dotslash) "c \<noteq> CHR ''/''" "c = CHR ''.'' \<and> take 1 cs = ''/''"
    | (dot) "c \<noteq> CHR ''/''" "\<not> (c = CHR ''.'' \<and> take 1 cs = ''/'')" "c = CHR ''.'' \<and> cs = []"
    | (dotdot) "c \<noteq> CHR ''/''" "\<not> (c = CHR ''.'' \<and> take 1 cs = ''/'')"
        "\<not> (c = CHR ''.'' \<and> cs = [])"
        "c = CHR ''.'' \<and> take 1 cs = ''.'' \<and> (take 1 (drop 1 cs) = ''/'' \<or> drop 1 cs = [])"
    | (name) "c \<noteq> CHR ''/''" "\<not> (c = CHR ''.'' \<and> take 1 cs = ''/'')"
        "\<not> (c = CHR ''.'' \<and> cs = [])"
        "\<not> (c = CHR ''.'' \<and> take 1 cs = ''.'' \<and> (take 1 (drop 1 cs) = ''/'' \<or> drop 1 cs = []))"
    by blast
  then show ?case
  proof cases
    case slash
    from run have "normalize_loop cs out = Some r"
      unfolding slash loop_slash .
    from "2.IH"(1) [OF slash out ds this abs] show ?thesis .
  next
    case dotslash
    from run have "normalize_loop (drop 1 cs) out = Some r"
      unfolding loop_dotslash [OF dotslash] .
    from "2.IH"(2) [OF dotslash out ds this abs] show ?thesis .
  next
    case dot
    from run have "r = out @ [c]"
      unfolding loop_dot [OF dot] by simp
    with out dot(3) have "r = ''/'' @ slashed ds @ ''.''" by simp
    with ds show ?thesis
      unfolding loop_result_def by blast
  next
    case dotdot
    from run obtain out' where pop: "pop_component out = Some out'"
      and run': "normalize_loop (drop (if drop 1 cs = [] then 1 else 2) cs) out' = Some r"
      unfolding loop_dotdot [OF dotdot] by (cases "pop_component out") simp_all
    show ?thesis
    proof (cases ds rule: rev_cases)
      case Nil
      with out pop pop_root have "out' = []" by simp
      then have "take 1 out' \<noteq> ''/''" by simp
      from loop_relative [OF this run'] abs show ?thesis by simp
    next
      case (snoc es e)
      with ds have e: "ordinary_name e" and es: "list_all ordinary_name es" by simp_all
      from out snoc pop pop_absolute [OF e, of es] have "out' = ''/'' @ slashed es" by simp
      from "2.IH"(4) [OF dotdot pop this es run' abs] show ?thesis .
    qed
  next
    case name
    have ord: "ordinary_name ?name"
      by (rule name_ordinary [OF name])
    show ?thesis
    proof (cases "take 1 ?rest = ''/''")
      case True
      from run have run': "normalize_loop (drop 1 ?rest) (out @ ?name @ ''/'') = Some r"
        unfolding loop_name_slash [OF name True] .
      have "out @ ?name @ ''/'' = ''/'' @ slashed (ds @ [?name])"
        using out by simp
      moreover have "list_all ordinary_name (ds @ [?name])"
        using ds ord by simp
      ultimately show ?thesis
        using "2.IH"(5) [OF name refl refl True _ _ run' abs] by blast
    next
      case False
      from run have "normalize_loop ?rest (out @ ?name) = Some r"
        unfolding loop_name_end [OF name False] .
      then have "normalize_loop [] (out @ ?name) = Some r"
        unfolding rest_empty [OF False] .
      then have "Some (out @ ?name) = Some r"
        by (simp only: normalize_loop.simps(1))
      then have "r = out @ ?name"
        by (metis option.inject)
      with out have "r = ''/'' @ slashed ds @ ?name" by simp
      with ds ord show ?thesis
        unfolding loop_result_def by blast
    qed
  qed
qed

lemma normalize_path_root:
  "normalize_path ''/'' p =
     (case normalize_loop p ''/'' of
        None \<Rightarrow> None
      | Some r \<Rightarrow> Some (if 1 < length r \<and> last r = CHR ''/'' then butlast r else r))"
proof (cases "take 1 p = ''/''")
  case True
  then obtain p' where p: "p = CHR ''/'' # p'"
    by (cases p) (auto split: if_splits)
  show ?thesis
    unfolding p loop_slash by (simp add: normalize_path_def)
next
  case False
  then show ?thesis
    by (simp add: normalize_path_def)
qed

lemma absolute_normalised:
  assumes "normalize_path ''/'' p = Some q" "take 1 q = ''/''"
  shows "normalised q"
proof -
  from assms(1) obtain r where run: "normalize_loop p ''/'' = Some r"
    and q: "q = (if 1 < length r \<and> last r = CHR ''/'' then butlast r else r)"
    unfolding normalize_path_root by (cases "normalize_loop p ''/''") auto
  from q assms(2) have "take 1 r = ''/''"
    by (cases r) (auto split: if_splits)
  from loop_absolute [of "''/''" "[]", OF _ _ run this] obtain cs t where
    r: "r = ''/'' @ slashed cs @ t" and cs: "list_all ordinary_name cs"
    and t: "t = [] \<or> t = ''.'' \<or> ordinary_name t"
    unfolding loop_result_def by auto
  from t show ?thesis
  proof (elim disjE)
    assume t: "t = []"
    show ?thesis
    proof (cases cs rule: rev_cases)
      case Nil
      with r t q have "q = ''/'' @ slashed [] @ []" by simp
      then show ?thesis
        unfolding normalised_def by (intro exI [of _ "[]"]) simp
    next
      case (snoc ds d)
      with cs have d: "ordinary_name d" and ds: "list_all ordinary_name ds" by simp_all
      from r t snoc have r': "r = (''/'' @ slashed ds @ d) @ ''/''" by simp
      have "butlast ((''/'' @ slashed ds @ d) @ ''/'') = ''/'' @ slashed ds @ d"
        by (simp only: butlast_snoc)
      with q r' have "q = ''/'' @ slashed ds @ d" by simp
      with d ds show ?thesis
        unfolding normalised_def by blast
    qed
  next
    assume t: "t = ''.''"
    with r q have "q = ''/'' @ slashed cs @ ''.''" by simp
    with cs show ?thesis
      unfolding normalised_def by blast
  next
    assume t: "ordinary_name t"
    then have "t \<noteq> []" "CHR ''/'' \<notin> set t"
      by (auto simp: ordinary_name_def)
    then have "t \<noteq> []" "last t \<noteq> CHR ''/''"
      by (metis, metis last_in_set)
    with r q have "q = ''/'' @ slashed cs @ t" by simp
    with cs t show ?thesis
      unfolding normalised_def by blast
  qed
qed

text \<open>
  Whenever the normaliser gives an absolute path, normalising that path again against
  the root gives it back. The paths left out are those in which a \<^verbatim>\<open>..\<close> climbs above
  the root: their result does not start with a slash (or the run is undefined).
\<close>

lemma normalize_path_idempotent_absolute:
  "normalize_path ''/'' p = Some q \<Longrightarrow> take 1 q = ''/'' \<Longrightarrow> normalize_path ''/'' q = Some q"
  by (rule normalised_fixed) (rule absolute_normalised)

lemma normalize_path_idempotent_example:
  "normalize_path ''/'' ''/a/c/d'' = Some ''/a/c/d''"
proof -
  have "normalize_path ''/'' ''a/b/../c/./d//e/..'' = Some ''/a/c/d''"
    by code_simp
  from normalize_path_idempotent_absolute [OF this] show ?thesis
    by simp
qed

text \<open>
  C9: idempotence for every path fails on \<^verbatim>\<open>..\<close>: against the root it is
  normalised to the empty string (the defect of C1), and the empty string is normalised
  to \<^verbatim>\<open>/\<close>.
\<close>

theorem normalize_path_not_idempotent:
  "normalize_path ''/'' ''..'' = Some [] \<and> normalize_path ''/'' [] = Some ''/''"
  by code_simp

section \<open>Signal core: the claims\<close>

text \<open>
  C4: \<^verbatim>\<open>rt_sigaction\<close> on SIGKILL, on SIGSTOP or on a number outside
  \<^verbatim>\<open>0 .. _NSIG - 1\<close> returns \<^verbatim>\<open>-EINVAL\<close>, whatever the other arguments are; the state
  of the signal core, its action table included, is the one before the call, and
  nothing is copied to \<^verbatim>\<open>oldact\<close>.
\<close>

theorem rt_sigaction_rejects_kill_stop:
  "signum = SIGKILL h \<or> signum = SIGSTOP h \<or> signum < 0 \<or> NSIG h \<le> signum \<Longrightarrow>
     sys_rt_sigaction h signum act oldact sigsetsize s = (Fail EINVAL, s, None)"
  by (auto simp: sys_rt_sigaction_def)

theorem rt_sigaction_rejects_kill_stop_witness:
  "sys_rt_sigaction linux_signal_h 9
      (Mapped \<lparr>sa_handler = 0x8048000, sa_flags = 0, sa_restorer = 0, sa_mask = 0\<rparr>)
      (Mapped ()) 8 signal_init = (Fail EINVAL, signal_init, None)
   \<and> sys_rt_sigaction linux_signal_h 19
      (Mapped \<lparr>sa_handler = 1, sa_flags = 0, sa_restorer = 0, sa_mask = 0\<rparr>)
      Null 8 signal_init = (Fail EINVAL, signal_init, None)"
  using rt_sigaction_rejects_kill_stop [of 9 linux_signal_h]
    rt_sigaction_rejects_kill_stop [of 19 linux_signal_h]
  by (simp add: linux_signal_h_def)

text \<open>
  Guest memory: a \<^verbatim>\<open>sigset_t\<close> stored at an address is read back from that address.
\<close>

lemma upt8: "[0..<8] = [0, 1, 2, 3, 4, 5, 6, 7::nat]"
  by (simp add: upt_rec)

lemma store_at:
  "i < 8 \<Longrightarrow> store_sigset a v mem (a + of_nat i) = ucast (drop_bit (8 * i) v)"
proof -
  assume "i < 8"
  then have "i \<in> {0, 1, 2, 3, 4, 5, 6, 7::nat}"
    by auto
  then show ?thesis
    by (auto simp add: store_sigset_def upt8)
qed

lemma bytes_join:
  "fold (\<lambda>i w. w OR push_bit (8 * i) (ucast (ucast (drop_bit (8 * i) v :: 64 word) :: 8 word)))
     [0, 1, 2, 3, 4, 5, 6, 7::nat] 0 = (v :: 64 word)"
proof (rule bit_word_eqI)
  fix n
  assume "n < LENGTH(64)"
  then have n: "n < 64"
    by simp
  have k: "k \<le> n \<Longrightarrow> k + (n - k) = n" for k
    by simp
  have c: "n < 8 \<or> (8 \<le> n \<and> n < 16) \<or> (16 \<le> n \<and> n < 24) \<or> (24 \<le> n \<and> n < 32)
      \<or> (32 \<le> n \<and> n < 40) \<or> (40 \<le> n \<and> n < 48) \<or> (48 \<le> n \<and> n < 56)
      \<or> (56 \<le> n \<and> n < 64)"
    using n by linarith
  show "bit (fold (\<lambda>i w. w OR push_bit (8 * i)
                             (ucast (ucast (drop_bit (8 * i) v :: 64 word) :: 8 word)))
               [0, 1, 2, 3, 4, 5, 6, 7::nat] (0 :: 64 word)) n = bit v n"
  proof (cases "bit v n")
    case True
    then show ?thesis
      using c n by (elim disjE conjE; simp add: bit_simps k cong: conj_cong; linarith)
  next
    case False
    then show ?thesis
      by (simp add: bit_simps k cong: conj_cong)
  qed
qed

lemma load_store_same: "load_sigset (store_sigset a v mem) a = v"
proof -
  have "load_sigset (store_sigset a v mem) a =
    fold (\<lambda>i w. w OR push_bit (8 * i) (ucast (ucast (drop_bit (8 * i) v :: 64 word) :: 8 word)))
     [0, 1, 2, 3, 4, 5, 6, 7::nat] 0"
    unfolding load_sigset_def upt8
    using store_at [of 0 a v mem] store_at [of 1 a v mem] store_at [of 2 a v mem]
      store_at [of 3 a v mem] store_at [of 4 a v mem] store_at [of 5 a v mem]
      store_at [of 6 a v mem] store_at [of 7 a v mem]
    by simp
  then show ?thesis by (simp only: bytes_join)
qed

lemma send_pending_signal_fields:
  "mask (send_pending_signal s) = mask s"
  "pending (send_pending_signal s) = pending s"
  "sigwrite (send_pending_signal s) =
     sigwrite s @ (if pending s AND NOT (mask s) \<noteq> 0 then [SIGNAL_PACKET_DELIVER] else [])"
  by (simp_all add: send_pending_signal_def send_packet_def)

lemma sys_rt_sigprocmask_cases:
  "sys_rt_sigprocmask h rd wr how set' oldset sigsetsize s mem = (Fail EINVAL, s, mem)
   \<or> sys_rt_sigprocmask h rd wr how set' oldset sigsetsize s mem = (Fail EFAULT, s, mem)
   \<or> sys_rt_sigprocmask h rd wr how set' oldset sigsetsize s mem =
       (Return 0,
        send_pending_signal
          (s\<lparr>mask :=
               (if set' = 0 then mask s
                else if how = SIG_BLOCK h
                  then mask s OR
                    load_sigset (if oldset \<noteq> 0 then store_sigset oldset (mask s) mem else mem) set'
                else if how = SIG_UNBLOCK h
                  then mask s AND NOT
                    (load_sigset (if oldset \<noteq> 0 then store_sigset oldset (mask s) mem else mem) set')
                else
                  load_sigset (if oldset \<noteq> 0 then store_sigset oldset (mask s) mem else mem) set')\<rparr>),
        if oldset \<noteq> 0 then store_sigset oldset (mask s) mem else mem)"
  by (simp add: sys_rt_sigprocmask_def Let_def)

text \<open>
  C3: a call of \<^verbatim>\<open>rt_sigprocmask\<close> that goes through returns 0. It stores the old mask
  at \<^verbatim>\<open>oldset\<close> unless that is NULL, and then, unless \<^verbatim>\<open>set\<close> is NULL, sets the mask
  from the old mask and the set it reads at \<^verbatim>\<open>set\<close> in the memory after that store
  (so with \<^verbatim>\<open>set\<close> and \<^verbatim>\<open>oldset\<close> equal or overlapping, what it reads is what it has
  just stored). With \<open>m\<close> the mask the call has set and \<open>p\<close> the pending set, which the
  call does not touch: exactly one DELIVER packet is written into the signal pipe if
  \<open>p AND NOT m\<close> is not empty, and no packet if it is. A call that fails changes
  neither the signal state nor the memory, and writes nothing.
\<close>

theorem rt_sigprocmask_deliver:
  "(sys_rt_sigprocmask h rd wr how set' oldset sigsetsize s mem = (Return r, s', mem') \<longrightarrow>
      r = 0
      \<and> mem' = (if oldset \<noteq> 0 then store_sigset oldset (mask s) mem else mem)
      \<and> mask s' =
          (if set' = 0 then mask s
           else if how = SIG_BLOCK h then mask s OR load_sigset mem' set'
           else if how = SIG_UNBLOCK h then mask s AND NOT (load_sigset mem' set')
           else load_sigset mem' set')
      \<and> pending s' = pending s
      \<and> sigwrite s' = sigwrite s @
           (if pending s AND NOT (mask s') \<noteq> 0 then [SIGNAL_PACKET_DELIVER] else []))
   \<and> (sys_rt_sigprocmask h rd wr how set' oldset sigsetsize s mem = (Fail e, s', mem') \<longrightarrow>
        s' = s \<and> mem' = mem)"
proof -
  let ?call = "sys_rt_sigprocmask h rd wr how set' oldset sigsetsize s mem"
  define M where "M = (if oldset \<noteq> 0 then store_sigset oldset (mask s) mem else mem)"
  define m where "m =
    (if set' = 0 then mask s
     else if how = SIG_BLOCK h then mask s OR load_sigset M set'
     else if how = SIG_UNBLOCK h then mask s AND NOT (load_sigset M set')
     else load_sigset M set')"
  have c: "?call = (Fail EINVAL, s, mem) \<or> ?call = (Fail EFAULT, s, mem)
      \<or> ?call = (Return 0, send_pending_signal (s\<lparr>mask := m\<rparr>), M)"
    unfolding m_def M_def by (rule sys_rt_sigprocmask_cases)
  have ok: "r = 0 \<and> mem' = M \<and> mask s' = m \<and> pending s' = pending s
      \<and> sigwrite s' = sigwrite s @
           (if pending s AND NOT (mask s') \<noteq> 0 then [SIGNAL_PACKET_DELIVER] else [])"
    if "?call = (Return r, s', mem')"
  proof -
    from c that have "r = 0" and "mem' = M" and "s' = send_pending_signal (s\<lparr>mask := m\<rparr>)"
      by auto
    then show ?thesis
      by (simp add: send_pending_signal_fields)
  qed
  have bad: "s' = s \<and> mem' = mem" if "?call = (Fail e, s', mem')"
    using c that by auto
  show ?thesis
    using ok bad unfolding m_def M_def by blast
qed

text \<open>
  SIGUSR1 is pending and blocked. Unblocking it, with \<^verbatim>\<open>set\<close> at \<^verbatim>\<open>0x1000\<close> and
  \<^verbatim>\<open>oldset\<close> at \<^verbatim>\<open>0x2000\<close>, writes the packet. A call with \<^verbatim>\<open>SIG_SETMASK\<close> whose
  \<^verbatim>\<open>set\<close> and \<^verbatim>\<open>oldset\<close> are both \<^verbatim>\<open>0x1000\<close>, where an empty set is stored, reads back
  the old mask: SIGUSR1 stays blocked and no packet is written.
\<close>

theorem rt_sigprocmask_deliver_witness:
  "sigwrite (fst (snd (sys_rt_sigprocmask linux_signal_h all_mapped all_mapped 1 0x1000 0x2000 8
                         usr1_blocked usr1_at_1000))) = [SIGNAL_PACKET_DELIVER]
   \<and> mask (fst (snd (sys_rt_sigprocmask linux_signal_h all_mapped all_mapped 2 0x1000 0x1000 8
                        usr1_blocked zero_memory))) = 1024
   \<and> sigwrite (fst (snd (sys_rt_sigprocmask linux_signal_h all_mapped all_mapped 2 0x1000 0x1000 8
                           usr1_blocked zero_memory))) = []"
proof -
  let ?unblock = "sys_rt_sigprocmask linux_signal_h all_mapped all_mapped 1 0x1000 0x2000 8
                    usr1_blocked usr1_at_1000"
  let ?aliased = "sys_rt_sigprocmask linux_signal_h all_mapped all_mapped 2 0x1000 0x1000 8
                    usr1_blocked zero_memory"
  have u: "?unblock = (Return 0, fst (snd ?unblock), snd (snd ?unblock))"
    by (simp add: sys_rt_sigprocmask_def linux_signal_h_def sizeof_sigset_t_def all_mapped_def
        Let_def)
  have a: "?aliased = (Return 0, fst (snd ?aliased), snd (snd ?aliased))"
    by (simp add: sys_rt_sigprocmask_def linux_signal_h_def sizeof_sigset_t_def all_mapped_def
        Let_def)
  have lu: "load_sigset (store_sigset 0x2000 1024 usr1_at_1000) 0x1000 = 1024"
    by (simp add: load_sigset_def store_sigset_def usr1_at_1000_def zero_memory_def upt8)
  have la: "load_sigset (store_sigset 0x1000 1024 zero_memory) 0x1000 = 1024"
    by (simp add: load_sigset_def store_sigset_def zero_memory_def upt8)
  have "sigwrite (fst (snd ?unblock)) = [SIGNAL_PACKET_DELIVER]"
    using rt_sigprocmask_deliver [of linux_signal_h all_mapped all_mapped 1 "0x1000" "0x2000" 8
        usr1_blocked usr1_at_1000 0 "fst (snd ?unblock)" "snd (snd ?unblock)"] u lu
    by (simp add: linux_signal_h_def usr1_blocked_def signal_init_def)
  moreover have "mask (fst (snd ?aliased)) = 1024 \<and> sigwrite (fst (snd ?aliased)) = []"
    using rt_sigprocmask_deliver [of linux_signal_h all_mapped all_mapped 2 "0x1000" "0x1000" 8
        usr1_blocked zero_memory 0 "fst (snd ?aliased)" "snd (snd ?aliased)"] a la
    by (simp add: linux_signal_h_def usr1_blocked_def signal_init_def)
  ultimately show ?thesis by simp
qed

text \<open>
  What the order of the store and the load means for a call whose \<^verbatim>\<open>set\<close> and
  \<^verbatim>\<open>oldset\<close> are the same address: \<^verbatim>\<open>SIG_BLOCK\<close> and \<^verbatim>\<open>SIG_SETMASK\<close> leave the mask
  as it was, and \<^verbatim>\<open>SIG_UNBLOCK\<close> empties it.
\<close>

lemma rt_sigprocmask_same_address:
  assumes "sys_rt_sigprocmask h rd wr how a a sigsetsize s mem = (Return r, s', mem')"
    and "a \<noteq> 0"
  shows "mask s' = (if how = SIG_BLOCK h then mask s
                    else if how = SIG_UNBLOCK h then 0 else mask s)"
proof -
  from sys_rt_sigprocmask_cases [of h rd wr how a a sigsetsize s mem] assms
  have "s' = send_pending_signal
      (s\<lparr>mask :=
           (if how = SIG_BLOCK h then mask s OR load_sigset (store_sigset a (mask s) mem) a
            else if how = SIG_UNBLOCK h
              then mask s AND NOT (load_sigset (store_sigset a (mask s) mem) a)
            else load_sigset (store_sigset a (mask s) mem) a)\<rparr>)"
    by auto
  then show ?thesis
    by (simp add: send_pending_signal_fields load_store_same)
qed

text \<open>
  C5: a KILL packet for a signal number whose bit is set in the pending set is dropped:
  \<^verbatim>\<open>signal_thread_handle_kill\<close> returns with the state it found, so the pending set,
  the stored siginfo, the mask and \<^verbatim>\<open>can_accept_signal\<close> are as before, and no
  delivery was made.
\<close>

theorem handle_kill_already_pending:
  "sigismember (pending s) (si_signo info') \<Longrightarrow> si_signo info' < NSIG h \<Longrightarrow>
     signal_thread_handle_kill h info' s = Some s"
  by (simp add: signal_thread_handle_kill_def sigismember_def Let_def)

theorem handle_kill_already_pending_witness:
  "signal_thread_handle_kill linux_signal_h \<lparr>si_signo = 10, si_errno = 0, si_code = 7\<rparr>
     usr1_blocked = Some usr1_blocked"
proof -
  have "sigismember (pending usr1_blocked) 10"
    by (simp add: sigismember_def usr1_blocked_def signal_init_def)
  then show ?thesis
    using handle_kill_already_pending
      [of usr1_blocked "\<lparr>si_signo = 10, si_errno = 0, si_code = 7\<rparr>" linux_signal_h]
    by (simp add: linux_signal_h_def)
qed

section \<open>Filesystem registry: the claim\<close>

lemma match_mountpoint_prefix:
  "match_mountpoint m p = (if prefix m p then Some (drop (length m) p) else None)"
  by (induction m p rule: match_mountpoint.induct) auto

lemma find_filesystem_registry_lookup:
  "find_filesystem entries path = registry_lookup entries path"
  by (induction entries) (simp_all add: registry_lookup_def match_mountpoint_prefix Let_def)

lemma fold_vfs_add: "fold vfs_add added first = rev added @ first"
  by (induction added arbitrary: first) (simp_all add: vfs_add_def)

text \<open>
  C6: after the filesystems \<open>added\<close> were registered with \<^verbatim>\<open>vfs_add\<close> in this order,
  \<^verbatim>\<open>find_filesystem\<close> gives the first entry of the reversed list whose mountpoint is a
  prefix of the path, with the path behind the mountpoint and one leading slash removed,
  and fails if no mountpoint is a prefix.
\<close>

theorem find_filesystem_first_prefix:
  "find_filesystem (fold vfs_add added []) path = registry_lookup (rev added) path"
  by (simp add: fold_vfs_add find_filesystem_registry_lookup)

text \<open>
  The filesystem added last is tried first: \<^verbatim>\<open>/dev/null\<close> goes to the device
  filesystem, \<^verbatim>\<open>/etc\<close> to the root, and a relative path to none.
\<close>

theorem find_filesystem_first_prefix_witness:
  "find_filesystem (fold vfs_add [winfs, devfs] []) ''/dev/null'' = Some (devfs, ''null'')
   \<and> find_filesystem (fold vfs_add [winfs, devfs] []) ''/etc'' = Some (winfs, ''etc'')
   \<and> find_filesystem (fold vfs_add [winfs, devfs] []) ''etc'' = None"
  using find_filesystem_first_prefix [of "[winfs, devfs]" "''/dev/null''"]
    find_filesystem_first_prefix [of "[winfs, devfs]" "''/etc''"]
    find_filesystem_first_prefix [of "[winfs, devfs]" "''etc''"]
  by (simp add: registry_lookup_def winfs_def devfs_def)

section \<open>Symlink-aware open: the depth cap\<close>

text \<open>
  The loop itself is bounded: each pass calls \<^verbatim>\<open>fs->open\<close> at most once, and
  \<^verbatim>\<open>vfs_open\<close> returns after at most \<^verbatim>\<open>MAX_SYMLINK_LEVEL\<close> passes.
\<close>

lemma vfs_open_pass_calls:
  "length (snd (vfs_open_pass MAX_PATH first flags mode path target)) \<le> 1"
  by (simp add: vfs_open_pass_def Let_def split: option.split prod.split)

lemma vfs_open_loop_calls:
  "length (snd (vfs_open_loop MAX_PATH first flags mode n path target)) \<le> n"
proof (induction n arbitrary: path target)
  case 0
  show ?case by simp
next
  case (Suc n)
  obtain p calls where pass: "vfs_open_pass MAX_PATH first flags mode path target = (p, calls)"
    by (cases "vfs_open_pass MAX_PATH first flags mode path target")
  have one: "length calls \<le> 1"
    using vfs_open_pass_calls [of MAX_PATH first flags mode path target] pass by simp
  show ?case
  proof (cases p)
    case (Done r)
    with pass one show ?thesis by simp
  next
    case (Again path' target')
    obtain r later where
      rest: "vfs_open_loop MAX_PATH first flags mode n path' target' = (r, later)"
      by (cases "vfs_open_loop MAX_PATH first flags mode n path' target'")
    have "length later \<le> n"
      using Suc.IH [of path' target'] rest by simp
    with pass Again rest one show ?thesis by simp
  qed
qed

lemma vfs_open_bounded:
  "length (snd (vfs_open MAX_SYMLINK_LEVEL MAX_PATH first cwd' pathname flags mode junk))
     \<le> MAX_SYMLINK_LEVEL"
  using vfs_open_loop_calls [of MAX_PATH first flags mode MAX_SYMLINK_LEVEL]
  by (simp add: vfs_open_def split: option.split)

text \<open>
  Scenario S3, for every cap and every \<^verbatim>\<open>MAX_PATH\<close> of at least three bytes: \<^verbatim>\<open>/a\<close>
  is a link to itself, \<^verbatim>\<open>fs->open\<close> reports the link in each pass, and \<^verbatim>\<open>vfs_open\<close>
  returns \<^verbatim>\<open>-ELOOP\<close> after exactly \<^verbatim>\<open>MAX_SYMLINK_LEVEL\<close> calls of \<^verbatim>\<open>fs->open\<close>.
\<close>

lemma short_paths:
  "normalize_path ''/'' ''/a'' = Some ''/a''"
  "normalize_path ''/'' ''/d/x'' = Some ''/d/x''"
  "normalize_path ''/'' ''/dx'' = Some ''/dx''"
  "normalize_path ''/'' ''d/x'' = Some ''/d/x''"
  "normalize_path ''/'' ''dx'' = Some ''/dx''"
  "upto_last_slash ''/a'' = Some ''/''"
  "upto_last_slash ''/d'' = Some ''/''"
  by code_simp+

lemma loop_fs_pass:
  "vfs_open_pass (3 + k) [loop_fs] flags mode ''/a'' target =
     (Again ''/a'' (store_cstr ''/a'' target), [''a''])"
  by (simp add: vfs_open_pass_def loop_fs_def normalize_path_in_def short_paths Let_def)

lemma loop_fs_loop:
  "vfs_open_loop (3 + k) [loop_fs] flags mode n ''/a'' target = (Fail ELOOP, replicate n ''a'')"
  by (induction n arbitrary: target) (simp_all add: loop_fs_pass)

lemma vfs_open_leaf_loop:
  "vfs_open MAX_SYMLINK_LEVEL (3 + k) [loop_fs] ''/'' ''/a'' flags mode junk =
     (Fail ELOOP, replicate MAX_SYMLINK_LEVEL ''a'')"
  by (simp add: vfs_open_def normalize_path_in_def short_paths loop_fs_loop)

text \<open>
  Scenario S2 on the model: the first \<^verbatim>\<open>fs->open\<close> fails with \<^verbatim>\<open>-ENOENT\<close>, the
  component \<^verbatim>\<open>link\<close> is resolved, and the second call opens the file.
\<close>

lemma vfs_open_component_link:
  "vfs_open 8 260 [link_fs] ''/'' ''/link/file'' 0 0 stack_x =
     (Return 7, [''link/file'', ''real/file''])"
  by code_simp










text \<open>
  The same with a loop of two links, \<^verbatim>\<open>/a\<close> to \<^verbatim>\<open>/b\<close> and \<^verbatim>\<open>/b\<close> to \<^verbatim>\<open>/a\<close>:
  opening \<^verbatim>\<open>/a/x\<close> ends with \<^verbatim>\<open>-ENOENT\<close> on the name \<^verbatim>\<open>ax\<close>, while opening the link
  \<^verbatim>\<open>/a\<close> itself, which \<^verbatim>\<open>fs->open\<close> reports in each pass, ends with \<^verbatim>\<open>-ELOOP\<close>.
\<close>

lemma vfs_open_two_links:
  "vfs_open 8 260 [two_dirs_fs] ''/'' ''/a/x'' 0 0 stack_x =
     (Fail ENOENT, [''a/x'', ''b/x'', ''ax''])"
  "vfs_open 8 260 [two_dirs_fs] ''/'' ''/a'' 0 0 stack_x =
     (Fail ELOOP, [''a'', ''b'', ''a'', ''b'', ''a'', ''b'', ''a'', ''b''])"
  by code_simp+

text \<open>
  The arrays are checked: with five bytes the path \<^verbatim>\<open>/d/x\<close> and its terminator fit,
  with four the first call of \<^verbatim>\<open>normalize_path\<close> would store behind \<^verbatim>\<open>path\<close>.
\<close>

lemma vfs_open_short_array:
  "vfs_open 8 4 [dir_loop_fs] ''/'' ''/d/x'' 0 0 stack_x = (Undefined, [])"
  by code_simp

section \<open>Descriptor table: duplication\<close>

lemma first_empty_Some:
  "first_empty slots i = Some k \<Longrightarrow>
     i \<le> k \<and> k - i < length slots \<and> slots ! (k - i) = None \<and> (\<forall>j < k - i. slots ! j \<noteq> None)"
proof (induction slots arbitrary: i)
  case Nil
  then show ?case by simp
next
  case (Cons slot slots)
  show ?case
  proof (cases "slot = None")
    case True
    with Cons.prems show ?thesis by simp
  next
    case False
    with Cons.prems have rec: "first_empty slots (Suc i) = Some k" by simp
    from Cons.IH [OF rec] have ih: "Suc i \<le> k" "k - Suc i < length slots"
      "slots ! (k - Suc i) = None" "\<forall>j < k - Suc i. slots ! j \<noteq> None" by auto
    from ih(1) have eq: "k - i = Suc (k - Suc i)" by simp
    have "\<forall>j < k - i. (slot # slots) ! j \<noteq> None"
    proof (intro allI impI)
      fix j assume "j < k - i"
      then show "(slot # slots) ! j \<noteq> None"
        using False ih(4) eq by (cases j) auto
    qed
    with ih eq show ?thesis by simp
  qed
qed

lemma first_empty_None: "first_empty slots i = None \<Longrightarrow> None \<notin> set slots"
  by (induction slots arbitrary: i) (auto split: if_splits)

lemma first_empty_0:
  "first_empty slots 0 = Some k \<Longrightarrow>
     k < length slots \<and> slots ! k = None \<and> (\<forall>j < k. slots ! j \<noteq> None)"
  using first_empty_Some [of slots 0 k] by simp

lemma vfs_dup_rejected:
  "vfs_get fd s = Some f \<Longrightarrow> newfd \<noteq> - 1 \<Longrightarrow>
     newfd = fd \<or> newfd < 0 \<or> MAX_FD_COUNT s \<le> newfd \<Longrightarrow>
     vfs_dup C fd newfd flags s = (Fail EINVAL, s)"
  by (auto simp: vfs_dup_def)

lemma vfs_dup_explicit:
  assumes "vfs_get fd s = Some f" "newfd \<noteq> fd" "0 \<le> newfd" "newfd < MAX_FD_COUNT s"
  shows "fst (vfs_dup C fd newfd flags s) = Return newfd
    \<and> fds (snd (vfs_dup C fd newfd flags s)) = (fds s)[nat newfd := Some f]
    \<and> ref (snd (vfs_dup C fd newfd flags s)) =
        (\<lambda>g. ref s g - (if fds s ! nat newfd = Some g then 1 else 0) + (if g = f then 1 else 0))
    \<and> closed (snd (vfs_dup C fd newfd flags s)) =
        closed s @ (case fds s ! nat newfd of None \<Rightarrow> []
                    | Some g \<Rightarrow> if ref s g = 1 then [g] else [])"
proof (cases "fds s ! nat newfd")
  case None
  with assms show ?thesis
    by (auto simp: vfs_dup_def install_dup_def fun_eq_iff)
next
  case (Some g)
  with assms show ?thesis
    by (auto simp: vfs_dup_def install_dup_def vfs_close_def vfs_release_def Let_def fun_eq_iff)
qed

lemma vfs_dup_lowest:
  assumes "vfs_get fd s = Some f"
  shows "case first_empty (fds s) 0 of
       None \<Rightarrow> None \<notin> set (fds s) \<and> vfs_dup C fd (- 1) flags s = (Fail EMFILE, s)
     | Some i \<Rightarrow>
         i < length (fds s) \<and> fds s ! i = None \<and> (\<forall>j < i. fds s ! j \<noteq> None)
         \<and> fst (vfs_dup C fd (- 1) flags s) = Return (int i)
         \<and> fds (snd (vfs_dup C fd (- 1) flags s)) = (fds s)[i := Some f]
         \<and> ref (snd (vfs_dup C fd (- 1) flags s)) = (ref s)(f := ref s f + 1)
         \<and> closed (snd (vfs_dup C fd (- 1) flags s)) = closed s"
proof (cases "first_empty (fds s) 0")
  case None
  with assms first_empty_None [of "fds s" 0] show ?thesis
    by (simp add: vfs_dup_def)
next
  case (Some i)
  with assms first_empty_0 [of "fds s" i] show ?thesis
    by (simp add: vfs_dup_def install_dup_def)
qed

text \<open>
  C7: for an open descriptor \<^verbatim>\<open>fd\<close> with file \<open>f\<close>, \<^verbatim>\<open>vfs_dup\<close>
  \<^item> rejects with \<^verbatim>\<open>-EINVAL\<close>, changing nothing, a target \<^verbatim>\<open>newfd\<close> other than -1
    that equals \<^verbatim>\<open>fd\<close> or lies outside \<^verbatim>\<open>0 .. MAX_FD_COUNT - 1\<close>;
  \<^item> for any other explicit target returns \<^verbatim>\<open>newfd\<close>, with slot \<^verbatim>\<open>newfd\<close> holding
    \<open>f\<close>, the reference count of the file that was in the slot one lower (its
    \<^verbatim>\<open>close\<close> invoked if that was its last reference) and the count of \<open>f\<close> one higher;
  \<^item> for \<^verbatim>\<open>newfd == -1\<close> uses the empty slot of lowest index, and returns
    \<^verbatim>\<open>-EMFILE\<close> if there is none.
\<close>

theorem vfs_dup_spec:
  assumes "vfs_get fd s = Some f"
  shows "(newfd \<noteq> - 1 \<and> (newfd = fd \<or> newfd < 0 \<or> MAX_FD_COUNT s \<le> newfd) \<longrightarrow>
            vfs_dup C fd newfd flags s = (Fail EINVAL, s))
    \<and> (newfd \<noteq> fd \<and> 0 \<le> newfd \<and> newfd < MAX_FD_COUNT s \<longrightarrow>
          fst (vfs_dup C fd newfd flags s) = Return newfd
          \<and> fds (snd (vfs_dup C fd newfd flags s)) = (fds s)[nat newfd := Some f]
          \<and> ref (snd (vfs_dup C fd newfd flags s)) =
              (\<lambda>g. ref s g - (if fds s ! nat newfd = Some g then 1 else 0)
                            + (if g = f then 1 else 0))
          \<and> closed (snd (vfs_dup C fd newfd flags s)) =
              closed s @ (case fds s ! nat newfd of None \<Rightarrow> []
                          | Some g \<Rightarrow> if ref s g = 1 then [g] else []))
    \<and> (newfd = - 1 \<longrightarrow>
         (case first_empty (fds s) 0 of
            None \<Rightarrow> None \<notin> set (fds s) \<and> vfs_dup C fd newfd flags s = (Fail EMFILE, s)
          | Some i \<Rightarrow>
              i < length (fds s) \<and> fds s ! i = None \<and> (\<forall>j < i. fds s ! j \<noteq> None)
              \<and> fst (vfs_dup C fd newfd flags s) = Return (int i)
              \<and> fds (snd (vfs_dup C fd newfd flags s)) = (fds s)[i := Some f]
              \<and> ref (snd (vfs_dup C fd newfd flags s)) = (ref s)(f := ref s f + 1)
              \<and> closed (snd (vfs_dup C fd newfd flags s)) = closed s))"
proof (intro conjI impI)
  assume "newfd \<noteq> - 1 \<and> (newfd = fd \<or> newfd < 0 \<or> MAX_FD_COUNT s \<le> newfd)"
  with assms show "vfs_dup C fd newfd flags s = (Fail EINVAL, s)"
    using vfs_dup_rejected [of fd s f newfd C flags] by blast
next
  assume a: "newfd \<noteq> fd \<and> 0 \<le> newfd \<and> newfd < MAX_FD_COUNT s"
  note ex = vfs_dup_explicit [of fd s f newfd C flags]
  from a assms ex show "fst (vfs_dup C fd newfd flags s) = Return newfd" by blast
  from a assms ex show "fds (snd (vfs_dup C fd newfd flags s)) = (fds s)[nat newfd := Some f]"
    by blast
  from a assms ex show "ref (snd (vfs_dup C fd newfd flags s)) =
      (\<lambda>g. ref s g - (if fds s ! nat newfd = Some g then 1 else 0) + (if g = f then 1 else 0))"
    by blast
  from a assms ex show "closed (snd (vfs_dup C fd newfd flags s)) =
      closed s @ (case fds s ! nat newfd of None \<Rightarrow> [] | Some g \<Rightarrow> if ref s g = 1 then [g] else [])"
    by blast
next
  assume m: "newfd = - 1"
  show "case first_empty (fds s) 0 of
       None \<Rightarrow> None \<notin> set (fds s) \<and> vfs_dup C fd newfd flags s = (Fail EMFILE, s)
     | Some i \<Rightarrow>
         i < length (fds s) \<and> fds s ! i = None \<and> (\<forall>j < i. fds s ! j \<noteq> None)
         \<and> fst (vfs_dup C fd newfd flags s) = Return (int i)
         \<and> fds (snd (vfs_dup C fd newfd flags s)) = (fds s)[i := Some f]
         \<and> ref (snd (vfs_dup C fd newfd flags s)) = (ref s)(f := ref s f + 1)
         \<and> closed (snd (vfs_dup C fd newfd flags s)) = closed s"
    unfolding m by (rule vfs_dup_lowest [OF assms])
qed

text \<open>
  Scenario S6: \<^verbatim>\<open>dup2(3, 4)\<close> on the table of six slots. In \<^verbatim>\<open>dup2(1, 2)\<close> both
  descriptors hold the same file already: its count goes down and up again.
\<close>

theorem vfs_dup_spec_witness:
  "fst (vfs_dup 524288 3 4 0 table6) = Return 4
   \<and> fds (snd (vfs_dup 524288 3 4 0 table6)) = [Some 1, Some 2, Some 2, Some 3, Some 3, None]
   \<and> ref (snd (vfs_dup 524288 3 4 0 table6)) 3 = 2
   \<and> ref (snd (vfs_dup 524288 3 4 0 table6)) 4 = 0
   \<and> closed (snd (vfs_dup 524288 3 4 0 table6)) = [4]
   \<and> vfs_dup 524288 3 3 0 table6 = (Fail EINVAL, table6)
   \<and> vfs_dup 524288 3 6 0 table6 = (Fail EINVAL, table6)
   \<and> fst (vfs_dup 524288 3 (- 1) 0 table6) = Return 5
   \<and> ref (snd (vfs_dup 524288 1 2 0 table6)) 2 = 2"
proof -
  have g: "vfs_get 3 table6 = Some 3"
    by (simp add: vfs_get_def table6_def MAX_FD_COUNT_def)
  have g1: "vfs_get 1 table6 = Some 2"
    by (simp add: vfs_get_def table6_def MAX_FD_COUNT_def)
  have e: "first_empty (fds table6) 0 = Some 5"
    by (simp add: table6_def)
  have "ref (snd (vfs_dup 524288 1 2 0 table6)) 2 = 2"
    using vfs_dup_spec [OF g1, of 2 524288 0]
    by (simp add: table6_def MAX_FD_COUNT_def)
  then show ?thesis
    using vfs_dup_spec [OF g, of 4 524288 0] vfs_dup_spec [OF g, of 3 524288 0]
      vfs_dup_spec [OF g, of 6 524288 0] vfs_dup_spec [OF g, of "- 1" 524288 0] e
    by (simp add: table6_def MAX_FD_COUNT_def)
qed

section \<open>Pipes: failure leaves the table alone\<close>

lemma vfs_store_file_cases:
  "(\<exists>i. first_empty (fds s) 0 = Some i \<and> i < length (fds s) \<and> fds s ! i = None
        \<and> vfs_store_file f c s =
            (Return (int i), s\<lparr>fds := (fds s)[i := Some f], fds_cloexec := (fds_cloexec s)[i := c]\<rparr>))
   \<or> (first_empty (fds s) 0 = None \<and> vfs_store_file f c s = (Fail EMFILE, s))"
proof (cases "first_empty (fds s) 0")
  case None
  then show ?thesis by (simp add: vfs_store_file_def)
next
  case (Some i)
  with first_empty_0 [of "fds s" i] show ?thesis by (simp add: vfs_store_file_def)
qed

lemma vfs_release_fds [simp]: "fds (vfs_release f s) = fds s"
  by (simp add: vfs_release_def Let_def)

lemma vfs_close_stored:
  assumes "i < length (fds s)" "fds s ! i = None"
  shows "\<exists>s3. vfs_close (int i) (s\<lparr>fds := (fds s)[i := Some f], fds_cloexec := cl\<rparr>) = Some s3
     \<and> fds s3 = fds s \<and> ref s3 = ref (vfs_release f s) \<and> closed s3 = closed (vfs_release f s)"
proof -
  have "(fds s)[i := None] = fds s"
    using assms by (metis list_update_id)
  with assms show ?thesis
    by (simp add: vfs_close_def MAX_FD_COUNT_def vfs_release_def Let_def)
qed

lemma vfs_release_ref_closed:
  "ref s = ref t \<Longrightarrow> closed s = closed t \<Longrightarrow>
     ref (vfs_release f s) = ref (vfs_release f t) \<and> closed (vfs_release f s) = closed (vfs_release f t)"
  by (simp add: vfs_release_def Let_def)

lemma sys_pipe2_flags:
  "flags AND O_DIRECT \<noteq> 0 \<or> flags AND O_NONBLOCK \<noteq> 0 \<Longrightarrow>
     sys_pipe2 O_DIRECT O_NONBLOCK O_CLOEXEC pipe_alloc ok flags s = (Fail EINVAL, s, None)"
  by (auto simp: sys_pipe2_def)

lemma sys_pipe2_alloc:
  assumes "flags AND O_DIRECT = 0" "flags AND O_NONBLOCK = 0" "ok"
    and alloc: "pipe_alloc flags s = (Inr (fread, fwrite), s0)"
  shows "(\<exists>rfd wfd s2. sys_pipe2 O_DIRECT O_NONBLOCK O_CLOEXEC pipe_alloc ok flags s
             = (Return 0, s2, Some (rfd, wfd)))
    \<or> (\<exists>s'. sys_pipe2 O_DIRECT O_NONBLOCK O_CLOEXEC pipe_alloc ok flags s = (Fail EMFILE, s', None)
          \<and> fds s' = fds s0
          \<and> ref s' = ref (vfs_release fwrite (vfs_release fread s0))
          \<and> closed s' = closed (vfs_release fwrite (vfs_release fread s0)))"
proof -
  define c :: int where "c = (if flags AND O_CLOEXEC > 0 then 1 else 0)"
  from vfs_store_file_cases [of s0 fread c] show ?thesis
  proof (elim disjE exE conjE)
    assume "first_empty (fds s0) 0 = None" "vfs_store_file fread c s0 = (Fail EMFILE, s0)"
    with assms show ?thesis
      by (simp add: sys_pipe2_def c_def)
  next
    fix i
    assume i: "i < length (fds s0)" "fds s0 ! i = None"
      and st: "vfs_store_file fread c s0 =
        (Return (int i), s0\<lparr>fds := (fds s0)[i := Some fread], fds_cloexec := (fds_cloexec s0)[i := c]\<rparr>)"
    let ?s1 = "s0\<lparr>fds := (fds s0)[i := Some fread], fds_cloexec := (fds_cloexec s0)[i := c]\<rparr>"
    from vfs_store_file_cases [of ?s1 fwrite c] show ?thesis
    proof (elim disjE exE conjE)
      fix j
      assume "vfs_store_file fwrite c ?s1 =
        (Return (int j), ?s1\<lparr>fds := (fds ?s1)[j := Some fwrite],
           fds_cloexec := (fds_cloexec ?s1)[j := c]\<rparr>)"
      with assms st show ?thesis
        by (simp add: sys_pipe2_def c_def)
    next
      assume full: "vfs_store_file fwrite c ?s1 = (Fail EMFILE, ?s1)"
      from vfs_close_stored [OF i, where f = fread and cl = "(fds_cloexec s0)[i := c]"]
      obtain s3 where s3: "vfs_close (int i) ?s1 = Some s3" "fds s3 = fds s0"
        "ref s3 = ref (vfs_release fread s0)" "closed s3 = closed (vfs_release fread s0)"
        by auto
      have "sys_pipe2 O_DIRECT O_NONBLOCK O_CLOEXEC pipe_alloc ok flags s
          = (Fail EMFILE, vfs_release fwrite s3, None)"
        using assms st full s3(1) by (simp add: sys_pipe2_def c_def)
      moreover have "fds (vfs_release fwrite s3) = fds s0"
        using s3(2) by simp
      moreover have "ref (vfs_release fwrite s3) = ref (vfs_release fwrite (vfs_release fread s0))
          \<and> closed (vfs_release fwrite s3) = closed (vfs_release fwrite (vfs_release fread s0))"
        using vfs_release_ref_closed [OF s3(3) s3(4)] .
      ultimately show ?thesis by simp
    qed
  qed
qed


text \<open>
  C10: \<^verbatim>\<open>pipe2\<close> leaves no descriptor behind when it fails. The allocator of
  \<^verbatim>\<open>fs/pipe.c\<close> is taken not to touch the descriptor table. Then
  \<^item> flags with \<^verbatim>\<open>O_DIRECT\<close> or \<^verbatim>\<open>O_NONBLOCK\<close> give \<^verbatim>\<open>-EINVAL\<close> with the state
    untouched (the allocator is not even called);
  \<^item> no run is undefined;
  \<^item> after every return other than 0 the table is the one before the call and nothing
    was stored in \<^verbatim>\<open>pipefd\<close>;
  \<^item> when the pipe was allocated and the call still fails, it fails with \<^verbatim>\<open>-EMFILE\<close>
    and both ends of the pipe were released once each (reference counts and calls of
    \<^verbatim>\<open>close\<close> are those of \<^verbatim>\<open>vfs_release(fread); vfs_release(fwrite)\<close>).
\<close>

theorem pipe2_failure_atomic:
  assumes table: "fds (snd (pipe_alloc flags s)) = fds s"
  shows "(flags AND O_DIRECT \<noteq> 0 \<or> flags AND O_NONBLOCK \<noteq> 0 \<longrightarrow>
            sys_pipe2 O_DIRECT O_NONBLOCK O_CLOEXEC pipe_alloc ok flags s = (Fail EINVAL, s, None))
    \<and> fst (sys_pipe2 O_DIRECT O_NONBLOCK O_CLOEXEC pipe_alloc ok flags s) \<noteq> Undefined
    \<and> (fst (sys_pipe2 O_DIRECT O_NONBLOCK O_CLOEXEC pipe_alloc ok flags s) \<noteq> Return 0 \<longrightarrow>
          fds (fst (snd (sys_pipe2 O_DIRECT O_NONBLOCK O_CLOEXEC pipe_alloc ok flags s))) = fds s
          \<and> snd (snd (sys_pipe2 O_DIRECT O_NONBLOCK O_CLOEXEC pipe_alloc ok flags s)) = None)
    \<and> (flags AND O_DIRECT = 0 \<and> flags AND O_NONBLOCK = 0 \<and> ok
        \<and> pipe_alloc flags s = (Inr (fread, fwrite), s0)
        \<and> fst (sys_pipe2 O_DIRECT O_NONBLOCK O_CLOEXEC pipe_alloc ok flags s) \<noteq> Return 0 \<longrightarrow>
          fst (sys_pipe2 O_DIRECT O_NONBLOCK O_CLOEXEC pipe_alloc ok flags s) = Fail EMFILE
          \<and> ref (fst (snd (sys_pipe2 O_DIRECT O_NONBLOCK O_CLOEXEC pipe_alloc ok flags s)))
              = ref (vfs_release fwrite (vfs_release fread s0))
          \<and> closed (fst (snd (sys_pipe2 O_DIRECT O_NONBLOCK O_CLOEXEC pipe_alloc ok flags s)))
              = closed (vfs_release fwrite (vfs_release fread s0)))"
    (is "?flags \<and> ?defined \<and> ?table \<and> ?released")
proof -
  let ?r = "sys_pipe2 O_DIRECT O_NONBLOCK O_CLOEXEC pipe_alloc ok flags s"
  have flags: ?flags
    using sys_pipe2_flags [of flags O_DIRECT O_NONBLOCK O_CLOEXEC pipe_alloc ok s] by blast
  have released: ?released
    using sys_pipe2_alloc [of flags O_DIRECT O_NONBLOCK ok pipe_alloc s fread fwrite s0 O_CLOEXEC]
    by auto
  have "?defined \<and> ?table"
  proof (cases "flags AND O_DIRECT \<noteq> 0 \<or> flags AND O_NONBLOCK \<noteq> 0")
    case True
    with flags show ?thesis by simp
  next
    case noflag: False
    show ?thesis
    proof (cases ok)
      case False
      with noflag show ?thesis by (simp add: sys_pipe2_def)
    next
      case True
      obtain a s0' where alloc: "pipe_alloc flags s = (a, s0')"
        by (cases "pipe_alloc flags s")
      with table have same: "fds s0' = fds s" by simp
      show ?thesis
      proof (cases a)
        case (Inl e)
        with noflag True alloc same show ?thesis by (simp add: sys_pipe2_def)
      next
        case (Inr ends)
        obtain fr fw where ends: "ends = (fr, fw)" by (cases ends)
        from sys_pipe2_alloc [of flags O_DIRECT O_NONBLOCK ok pipe_alloc s fr fw s0' O_CLOEXEC]
          noflag True alloc Inr ends same
        show ?thesis by auto
      qed
    qed
  qed
  with flags released show ?thesis by blast
qed

text \<open>
  The table of six slots has one empty slot: the read end is stored, the write end is
  not, and both files end up closed.
\<close>

theorem pipe2_failure_atomic_witness:
  "sys_pipe2 16384 2048 524288 new_pipe True 2048 table6 = (Fail EINVAL, table6, None)
   \<and> fst (sys_pipe2 16384 2048 524288 new_pipe True 0 table6) = Fail EMFILE
   \<and> fds (fst (snd (sys_pipe2 16384 2048 524288 new_pipe True 0 table6))) = fds table6
   \<and> closed (fst (snd (sys_pipe2 16384 2048 524288 new_pipe True 0 table6))) = [50, 51]"
proof -
  let ?s0 = "table6\<lparr>ref := (ref table6)(50 := 1, 51 := 1)\<rparr>"
  have t: "fds (snd (new_pipe flags table6)) = fds table6" for flags
    by (simp add: new_pipe_def)
  have alloc: "new_pipe 0 table6 = (Inr (50, 51), ?s0)"
    by (simp add: new_pipe_def)
  have full: "fst (sys_pipe2 16384 2048 524288 new_pipe True 0 table6) \<noteq> Return 0"
    by (simp add: sys_pipe2_def new_pipe_def vfs_store_file_def table6_def vfs_close_def
        MAX_FD_COUNT_def vfs_release_def Let_def)
  have log: "closed (vfs_release 51 (vfs_release 50 ?s0)) = [50, 51]"
    by (simp add: vfs_release_def table6_def Let_def)
  show ?thesis
    using pipe2_failure_atomic [of new_pipe 2048 table6 16384 2048 524288 True 50 51 ?s0, OF t]
      pipe2_failure_atomic [of new_pipe 0 table6 16384 2048 524288 True 50 51 ?s0, OF t]
      alloc full log
    by simp
qed

section \<open>Descriptor table: the reference count\<close>

lemma count_list_update:
  "i < length xs \<Longrightarrow>
     int (count_list (xs[i := v]) x) =
       int (count_list xs x) - (if xs ! i = x then 1 else 0) + (if v = x then 1 else 0)"
proof (induction xs arbitrary: i)
  case Nil
  then show ?case by simp
next
  case (Cons y ys)
  show ?case
  proof (cases i)
    case 0
    then show ?thesis by simp
  next
    case (Suc n)
    with Cons.prems have "n < length ys" by simp
    then have ih: "int (count_list (ys[n := v]) x) =
       int (count_list ys x) - (if ys ! n = x then 1 else 0) + (if v = x then 1 else 0)"
      by (rule Cons.IH)
    have "int (count_list ((y # ys)[i := v]) x) =
        int (count_list (ys[n := v]) x) + (if y = x then 1 else 0)"
      using Suc by simp
    also have "\<dots> = int (count_list ys x) - (if ys ! n = x then 1 else 0)
        + (if v = x then 1 else 0) + (if y = x then 1 else 0)"
      by (simp only: ih)
    also have "\<dots> = int (count_list (y # ys) x) - (if (y # ys) ! i = x then 1 else 0)
        + (if v = x then 1 else 0)"
      using Suc by simp
    finally show ?thesis .
  qed
qed

lemma count_list_member: "i < length xs \<Longrightarrow> xs ! i = x \<Longrightarrow> 0 < count_list xs x"
  using count_list_0_iff [of xs x] nth_mem [of i xs] by auto

lemma slots_holding_update:
  "i < length (fds s) \<Longrightarrow> fds s' = (fds s)[i := v] \<Longrightarrow>
     int (slots_holding f s') =
       int (slots_holding f s) - (if fds s ! i = Some f then 1 else 0)
         + (if v = Some f then 1 else 0)"
  by (simp add: slots_holding_def count_list_update)

lemma vfs_release_effect:
  "fds (vfs_release g s) = fds s
   \<and> ref (vfs_release g s) = (ref s)(g := ref s g - 1)
   \<and> closed (vfs_release g s) = closed s @ (if ref s g = 1 then [g] else [])"
  by (simp add: vfs_release_def Let_def)

lemma vfs_close_effect:
  assumes "vfs_close fd s = Some s'"
  shows "\<exists>g. 0 \<le> fd \<and> nat fd < length (fds s) \<and> fds s ! nat fd = Some g
     \<and> fds s' = (fds s)[nat fd := None]
     \<and> ref s' = (ref s)(g := ref s g - 1)
     \<and> closed s' = closed s @ (if ref s g = 1 then [g] else [])"
proof -
  from assms have range: "0 \<le> fd" "fd < MAX_FD_COUNT s"
    by (simp_all add: vfs_close_def split: if_splits)
  with assms obtain g where g: "fds s ! nat fd = Some g"
    by (cases "fds s ! nat fd") (simp_all add: vfs_close_def)
  with assms range have s': "s' = (vfs_release g s)\<lparr>fds := (fds (vfs_release g s))[nat fd := None],
      fds_cloexec := (fds_cloexec (vfs_release g s))[nat fd := 0]\<rparr>"
    by (simp add: vfs_close_def Let_def)
  from range have "nat fd < length (fds s)"
    by (simp add: MAX_FD_COUNT_def)
  with range g s' vfs_release_effect [of g s] show ?thesis
    by simp
qed


lemma inv_alive:
  "refcount_inv f s held \<Longrightarrow> 0 < slots_holding f s + held f \<Longrightarrow>
     0 < ref s f \<and> f \<notin> set (closed s)"
  by (auto simp: refcount_inv_def split: if_splits)

lemma inv_drop:
  assumes "refcount_inv f s held"
    and "ref s' = (ref s)(g := ref s g - 1)"
    and "closed s' = closed s @ (if ref s g = 1 then [g] else [])"
    and "f = g \<Longrightarrow> 0 < slots_holding f s + held f"
    and "int (slots_holding f s') + int (held' f) =
           int (slots_holding f s) + int (held f) - (if f = g then 1 else 0)"
  shows "refcount_inv f s' held'"
proof (cases "f = g")
  case True
  with assms(1,4) inv_alive [of f s held] have "0 < ref s f" "f \<notin> set (closed s)" by auto
  with True assms show ?thesis
    by (auto simp: refcount_inv_def)
next
  case False
  with assms show ?thesis
    by (auto simp: refcount_inv_def)
qed

lemma inv_gain:
  assumes "refcount_inv f s held"
    and "ref s' = (ref s)(g := ref s g + 1)"
    and "closed s' = closed s"
    and "f = g \<Longrightarrow> f \<notin> set (closed s)"
    and "int (slots_holding f s') + int (held' f) =
           int (slots_holding f s) + int (held f) + (if f = g then 1 else 0)"
  shows "refcount_inv f s' held'"
proof (cases "f = g")
  case True
  with assms(1,4) have "0 < ref s f \<and> f \<notin> set (closed s)"
    by (auto simp: refcount_inv_def split: if_splits)
  with True assms show ?thesis
    by (auto simp: refcount_inv_def)
next
  case False
  with assms show ?thesis
    by (auto simp: refcount_inv_def)
qed

lemma inv_same:
  assumes "refcount_inv f s held" "ref s' = ref s" "closed s' = closed s"
    and "int (slots_holding f s') + int (held' f) = int (slots_holding f s) + int (held f)"
  shows "refcount_inv f s' held'"
  using assms by (auto simp: refcount_inv_def)

lemma inv_release:
  assumes "refcount_inv f s held" "held g \<noteq> 0"
  shows "refcount_inv f (vfs_release g s) (held(g := held g - 1))"
proof (rule inv_drop [OF assms(1), of _ g])
  show "ref (vfs_release g s) = (ref s)(g := ref s g - 1)"
    using vfs_release_effect [of g s] by simp
  show "closed (vfs_release g s) = closed s @ (if ref s g = 1 then [g] else [])"
    using vfs_release_effect [of g s] by simp
  show "0 < slots_holding f s + held f" if "f = g"
    using that assms(2) by simp
  show "int (slots_holding f (vfs_release g s)) + int ((held(g := held g - 1)) f) =
      int (slots_holding f s) + int (held f) - (if f = g then 1 else 0)"
    using assms(2) by (simp add: slots_holding_def)
qed

lemma inv_close:
  assumes "refcount_inv f s held" "vfs_close fd s = Some s'"
  shows "refcount_inv f s' held"
proof -
  from vfs_close_effect [OF assms(2)] obtain g where
    g: "nat fd < length (fds s)" "fds s ! nat fd = Some g"
      "fds s' = (fds s)[nat fd := None]"
      "ref s' = (ref s)(g := ref s g - 1)"
      "closed s' = closed s @ (if ref s g = 1 then [g] else [])"
    by blast
  show ?thesis
  proof (rule inv_drop [OF assms(1) g(4) g(5)])
    show "0 < slots_holding f s + held f" if "f = g"
      using that g(1,2) count_list_member [of "nat fd" "fds s" "Some g"]
      by (simp add: slots_holding_def)
    show "int (slots_holding f s') + int (held f) =
        int (slots_holding f s) + int (held f) - (if f = g then 1 else 0)"
      using slots_holding_update [OF g(1) g(3), of f] g(2) by auto
  qed
qed

lemma inv_install:
  assumes "refcount_inv f s held"
    and "i < length (fds s)" "fds s ! i = None"
    and "j < length (fds s)" "fds s ! j = Some g"
  shows "refcount_inv f (install_dup C g i flags s) held"
proof (rule inv_gain [OF assms(1), of _ g])
  show "ref (install_dup C g i flags s) = (ref s)(g := ref s g + 1)"
    by (simp add: install_dup_def)
  show "closed (install_dup C g i flags s) = closed s"
    by (simp add: install_dup_def)
  show "f \<notin> set (closed s)" if "f = g"
    using that assms(4,5) count_list_member [of j "fds s" "Some g"]
      inv_alive [OF assms(1)]
    by (simp add: slots_holding_def)
  have "fds (install_dup C g i flags s) = (fds s)[i := Some g]"
    by (simp add: install_dup_def)
  from slots_holding_update [OF assms(2) this, of f] assms(3)
  show "int (slots_holding f (install_dup C g i flags s)) + int (held f) =
      int (slots_holding f s) + int (held f) + (if f = g then 1 else 0)"
    by auto
qed

lemma inv_store:
  assumes "refcount_inv f s held" "held g \<noteq> 0"
  shows "refcount_inv f (snd (vfs_store_file g c s))
     (case fst (vfs_store_file g c s) of Return fd \<Rightarrow> held(g := held g - 1) | _ \<Rightarrow> held)"
  using vfs_store_file_cases [of s g c]
proof (elim disjE exE conjE)
  assume "vfs_store_file g c s = (Fail EMFILE, s)"
  with assms(1) show ?thesis by simp
next
  fix i
  assume i: "i < length (fds s)" "fds s ! i = None"
    and st: "vfs_store_file g c s =
      (Return (int i), s\<lparr>fds := (fds s)[i := Some g], fds_cloexec := (fds_cloexec s)[i := c]\<rparr>)"
  let ?s' = "s\<lparr>fds := (fds s)[i := Some g], fds_cloexec := (fds_cloexec s)[i := c]\<rparr>"
  have "refcount_inv f ?s' (held(g := held g - 1))"
  proof (rule inv_same [OF assms(1)])
    show "ref ?s' = ref s" by simp
    show "closed ?s' = closed s" by simp
    have "fds ?s' = (fds s)[i := Some g]" by simp
    from slots_holding_update [OF i(1) this, of f] i(2) assms(2)
    show "int (slots_holding f ?s') + int ((held(g := held g - 1)) f) =
        int (slots_holding f s) + int (held f)"
      by auto
  qed
  with st show ?thesis by simp
qed

lemma inv_takeref:
  assumes "refcount_inv f s held" "g \<notin> set (closed s)"
  shows "refcount_inv f (vfs_ref g s) (held(g := held g + 1))"
proof (rule inv_gain [OF assms(1), of _ g])
  show "ref (vfs_ref g s) = (ref s)(g := ref s g + 1)"
    by (simp add: vfs_ref_def)
  show "closed (vfs_ref g s) = closed s"
    by (simp add: vfs_ref_def)
  show "f \<notin> set (closed s)" if "f = g"
    using that assms(2) by simp
  show "int (slots_holding f (vfs_ref g s)) + int ((held(g := held g + 1)) f) =
      int (slots_holding f s) + int (held f) + (if f = g then 1 else 0)"
    by (simp add: slots_holding_def vfs_ref_def)
qed

lemma inv_dup:
  assumes inv: "refcount_inv f s held"
  shows "refcount_inv f (snd (vfs_dup C fd newfd flags s)) held"
proof (cases "vfs_get fd s")
  case None
  with inv show ?thesis by (simp add: vfs_dup_def)
next
  case (Some g)
  then have src: "nat fd < length (fds s)" "fds s ! nat fd = Some g" "0 \<le> fd"
    by (auto simp: vfs_get_def MAX_FD_COUNT_def split: if_splits)
  show ?thesis
  proof (cases "newfd = - 1")
    case True
    show ?thesis
    proof (cases "first_empty (fds s) 0")
      case None
      with inv Some True show ?thesis by (simp add: vfs_dup_def)
    next
      case (Some i)
      with first_empty_0 [of "fds s" i] have "i < length (fds s)" "fds s ! i = None"
        by simp_all
      from inv_install [OF inv this src(1,2), of C flags] \<open>vfs_get fd s = Some g\<close> True Some
      show ?thesis by (simp add: vfs_dup_def)
    qed
  next
    case explicit: False
    show ?thesis
    proof (cases "newfd = fd \<or> newfd < 0 \<or> MAX_FD_COUNT s \<le> newfd")
      case True
      with inv Some explicit show ?thesis by (auto simp: vfs_dup_def)
    next
      case False
      then have tgt: "nat newfd < length (fds s)" "nat newfd \<noteq> nat fd" "0 \<le> newfd"
        using src(3) by (auto simp: MAX_FD_COUNT_def)
      show ?thesis
      proof (cases "fds s ! nat newfd")
        case None
        from inv_install [OF inv tgt(1) None src(1,2), of C flags] Some explicit False None
        show ?thesis by (simp add: vfs_dup_def)
      next
        case occupied: (Some h)
        with tgt False have "vfs_close newfd s \<noteq> None"
          by (simp add: vfs_close_def Let_def)
        then obtain s1 where s1: "vfs_close newfd s = Some s1"
          by auto
        from vfs_close_effect [OF s1] have table: "fds s1 = (fds s)[nat newfd := None]"
          by blast
        have inv1: "refcount_inv f s1 held"
          by (rule inv_close [OF inv s1])
        have "nat newfd < length (fds s1)" "fds s1 ! nat newfd = None"
          "nat fd < length (fds s1)" "fds s1 ! nat fd = Some g"
          using table tgt src by simp_all
        from inv_install [OF inv1 this, of C flags] Some explicit False occupied s1
        show ?thesis by (simp add: vfs_dup_def)
      qed
    qed
  qed
qed

lemma inv_apply_op:
  assumes "refcount_inv f s held" "apply_op C x (s, held) = Some (s', held')"
  shows "refcount_inv f s' held'"
proof (cases x)
  case (Store g c)
  with assms(2) have g: "held g \<noteq> 0"
    by (simp split: if_splits)
  obtain r t where st: "vfs_store_file g c s = (r, t)"
    by (cases "vfs_store_file g c s")
  with inv_store [OF assms(1) g, of c] assms(2) Store g show ?thesis
    by (cases r) auto
next
  case (Close fd)
  with assms inv_close [of f s held fd s'] show ?thesis
    by (simp split: option.splits)
next
  case (Dup fd newfd flags)
  with assms inv_dup [of f s held C fd newfd flags] show ?thesis
    by auto
next
  case (TakeRef g)
  with assms inv_takeref [of f s held g] show ?thesis
    by (auto split: if_splits)
next
  case (Release g)
  with assms inv_release [of f s held g] show ?thesis
    by (auto split: if_splits)
qed

lemma inv_apply_ops:
  "refcount_inv f s held \<Longrightarrow> apply_ops C xs (s, held) = Some (s', held') \<Longrightarrow>
     refcount_inv f s' held'"
proof (induction xs arbitrary: s held)
  case Nil
  then show ?case by simp
next
  case (Cons x xs)
  from Cons.prems(2) obtain s1 held1 where
    first: "apply_op C x (s, held) = Some (s1, held1)"
    and rest: "apply_ops C xs (s1, held1) = Some (s', held')"
    by (auto split: option.splits)
  from inv_apply_op [OF Cons.prems(1) first] have "refcount_inv f s1 held1" .
  from Cons.IH [OF this rest] show ?case .
qed

lemma apply_op_run:
  "apply_op C x (s, held) = Some (s', held') \<Longrightarrow> run_op C x s = Some s'"
  by (cases x) (auto split: if_splits option.splits prod.splits outcome.splits)

lemma apply_ops_run:
  "apply_ops C xs (s, held) = Some (s', held') \<Longrightarrow> run_ops C xs s = Some s'"
proof (induction xs arbitrary: s held)
  case Nil
  then show ?case by simp
next
  case (Cons x xs)
  from Cons.prems obtain s1 held1 where
    first: "apply_op C x (s, held) = Some (s1, held1)"
    and rest: "apply_ops C xs (s1, held1) = Some (s', held')"
    by (auto split: option.splits)
  from apply_op_run [OF first] Cons.IH [OF rest] show ?case
    by simp
qed

text \<open>
  C8, as it holds: let the reference count of a file \<open>f\<close> be positive and equal to the
  number of slots holding \<open>f\<close> plus the number of references held outside the table,
  with \<^verbatim>\<open>close\<close> not yet run on \<open>f\<close>. Take a sequence of store, close, dup, ref and
  release operations in which each caller keeps the discipline: \<^verbatim>\<open>vfs_store_file\<close> and
  \<^verbatim>\<open>vfs_release\<close> are called by a holder of an outside reference to the file, which the
  call uses up (a store that finds no empty slot leaves it with the caller);
  \<^verbatim>\<open>vfs_ref\<close> is called on a file whose \<^verbatim>\<open>close\<close> has not run; \<^verbatim>\<open>vfs_close\<close> is called
  on an occupied slot. After the sequence, which leaves the state the calls themselves
  leave, the count of \<open>f\<close> is again the number of slots holding it plus the number of
  references held outside; \<^verbatim>\<open>close\<close> has run on \<open>f\<close> exactly once if the count has
  come down to zero, and not at all otherwise.
\<close>

theorem refcount_invariant:
  assumes "ref s f = int (slots_holding f s) + int (held f)"
    and "0 < ref s f" and "f \<notin> set (closed s)"
    and "apply_ops C xs (s, held) = Some (s', held')"
  shows "run_ops C xs s = Some s'
    \<and> ref s' f = int (slots_holding f s') + int (held' f)
    \<and> count_list (closed s') f = (if ref s' f = 0 then 1 else 0)"
proof -
  from assms(1-3) have "refcount_inv f s held"
    by (simp add: refcount_inv_def)
  from inv_apply_ops [OF this assms(4)] apply_ops_run [OF assms(4)] show ?thesis
    by (auto simp: refcount_inv_def)
qed

text \<open>
  A run with all five operations on the table of six slots, for the file of descriptor
  3: at the end no slot holds the file, no reference is held outside, the count is zero
  and \<^verbatim>\<open>close\<close> has run once.
\<close>

theorem refcount_invariant_witness:
  "\<exists>s' held'. apply_ops 524288 borrow_store_dup (table6, \<lambda>f. 0) = Some (s', held')
     \<and> run_ops 524288 borrow_store_dup table6 = Some s'
     \<and> ref s' 3 = int (slots_holding 3 s') + int (held' 3)
     \<and> ref s' 3 = 0 \<and> closed s' = [3]"
proof -
  let ?run = "apply_ops 524288 borrow_store_dup (table6, \<lambda>f. 0)"
  have some: "?run \<noteq> None"
    by code_simp
  then obtain s' held' where run: "?run = Some (s', held')"
    by (cases ?run) auto
  have "ref (fst (the ?run)) 3 = 0" "closed (fst (the ?run)) = [3]"
    by code_simp+
  with run have end_state: "ref s' 3 = 0" "closed s' = [3]"
    by simp_all
  have start: "ref table6 3 = int (slots_holding 3 table6) + int ((\<lambda>f. 0::nat) 3)"
    "0 < ref table6 3" "3 \<notin> set (closed table6)"
    by (simp_all add: table6_def slots_holding_def)
  from refcount_invariant [OF start run] end_state run show ?thesis
    by simp
qed

text \<open>
  C8, as the specification states it, for every sequence of the five operations: it
  fails on sequences whose callers do not hold the reference they use. On the table of
  six slots one slot holds file 3, its count is 1 and nobody holds a reference outside
  the table. The one-step sequence that stores file 3 again leaves two slots holding it
  and the count at 1, less than the number of slots alone. The one-step sequence that
  releases file 3 brings the count to zero and runs \<^verbatim>\<open>close\<close>, while a slot still holds
  the file.
\<close>

theorem refcount_unentitled_calls:
  "ref table6 3 = 1 \<and> slots_holding 3 table6 = 1 \<and> closed table6 = []
   \<and> run_ops 524288 [Store 3 0] table6 = Some (snd (vfs_store_file 3 0 table6))
   \<and> ref (snd (vfs_store_file 3 0 table6)) 3 = 1
   \<and> slots_holding 3 (snd (vfs_store_file 3 0 table6)) = 2
   \<and> run_ops 524288 [Release 3] table6 = Some (vfs_release 3 table6)
   \<and> ref (vfs_release 3 table6) 3 = 0
   \<and> slots_holding 3 (vfs_release 3 table6) = 1
   \<and> closed (vfs_release 3 table6) = [3]"
  by (simp add: table6_def slots_holding_def vfs_store_file_def vfs_release_def Let_def)

end
